theory Spec2Isabelle
  imports Complex_Main "HOL-Library.Multiset"
begin

section \<open>The OpenMP backend of PyOP2 (\<^verbatim>\<open>pyop2/openmp.py\<close>)\<close>

text \<open>
  The module is Python 2 (\<^verbatim>\<open>from exceptions import *\<close>, \<^verbatim>\<open>PyInt_AsLong\<close>, implicit
  relative imports), so \<^verbatim>\<open>/\<close> between two Python ints is floor division, which is
  \<open>div\<close> on \<open>int\<close>. Python ints are unbounded and are modelled by \<open>int\<close>;
  double precision and \<^verbatim>\<open>np.int32\<close> storage are written out where the code uses them.
  The methods of \<^verbatim>\<open>Arg\<close> return C text; each is modelled by the meaning of the C
  statement it returns, and by the Python exception it raises while building the text.
\<close>

subsection \<open>Constants, errors and argument descriptors\<close>

text \<open>\<^verbatim>\<open>_max_threads = 32\<close> and \<^verbatim>\<open>_padding = 8\<close>.\<close>

definition max_threads :: nat where
  "max_threads = 32"

definition cache_padding :: int where
  "cache_padding = 8"

text \<open>
  The first four are Python exceptions. The last two mark what C leaves undefined: an
  array access outside the declared bounds, and the use of a value that was never
  written or was fetched from outside an array.
\<close>

datatype error = ZeroDivisionError | UnboundLocalError | IndexError | OverflowError
  | OutOfBounds | IndeterminateValue

text \<open>The access descriptors; \<^verbatim>\<open>MIN\<close> and \<^verbatim>\<open>MAX\<close> carry a suffix here.\<close>

datatype access = READ | WRITE | RW | INC | MIN_acc | MAX_acc

text \<open>
  What the methods below read of an \<^verbatim>\<open>Arg\<close>: \<^verbatim>\<open>self.access\<close>,
  \<^verbatim>\<open>self.data.cdim\<close>, \<^verbatim>\<open>self.data.dtype.itemsize\<close>, and the flags
  \<^verbatim>\<open>_is_global_reduction\<close> and \<^verbatim>\<open>_is_mat\<close>.
\<close>

record arg =
  access :: access
  cdim :: int
  itemsize :: int
  is_global_reduction :: bool
  is_mat :: bool

subsection \<open>\<^verbatim>\<open>Arg.padding\<close>\<close>

text \<open>
  \<^verbatim>\<open>int(_padding * (self.data.cdim / _padding + 1)) * (_padding / self.data.dtype.itemsize)\<close>.
  Division by an item size of zero raises.
\<close>

definition padding :: "arg \<Rightarrow> error + int" where
  "padding a =
     (if itemsize a = 0 then Inl ZeroDivisionError
      else Inr (cache_padding * (cdim a div cache_padding + 1) * (cache_padding div itemsize a)))"

subsection \<open>Reading C arrays\<close>

text \<open>A read at an index outside the array has no value.\<close>

definition rd :: "'a list \<Rightarrow> nat \<Rightarrow> 'a option" where
  "rd xs i = (if i < length xs then Some (xs ! i) else None)"

definition rd_int :: "'a list \<Rightarrow> int \<Rightarrow> 'a option" where
  "rd_int xs i = (if 0 \<le> i then rd xs (nat i) else None)"

subsection \<open>Thread-local reduction buffers\<close>

text \<open>
  \<^verbatim>\<open>generate_code\<close> stores the texts of the three methods below, for every argument
  with \<^verbatim>\<open>_is_global_reduction\<close>, under the keys \<^verbatim>\<open>reduction_decs\<close>,
  \<^verbatim>\<open>reduction_inits\<close> and \<^verbatim>\<open>reduction_finalisations\<close>. The \<^verbatim>\<open>_wrapper\<close> template of
  this module has no placeholder of these names; the three texts are modelled as they
  are emitted.
\<close>

text \<open>
  \<^verbatim>\<open>c_reduction_dec\<close>: \<^verbatim>\<open>type name_l[_max_threads][padding]\<close>, an uninitialised
  two-dimensional array. A cell is \<open>None\<close> while its value is indeterminate.
\<close>

definition c_reduction_dec :: "arg \<Rightarrow> error + 'a option list list" where
  "c_reduction_dec a =
     (case padding a of
        Inl e \<Rightarrow> Inl e
      | Inr d \<Rightarrow> Inr (replicate max_threads (replicate (nat d) None)))"

text \<open>
  \<^verbatim>\<open>c_reduction_init\<close>:
  \<^verbatim>\<open>for ( int i = 0; i < padding; i++ ) name_l[tid][i] = init\<close>, where \<^verbatim>\<open>init\<close> is
  \<^verbatim>\<open>(type)0\<close> for \<^verbatim>\<open>INC\<close> and \<^verbatim>\<open>name[i]\<close> for every other access. The value
  fetched by \<^verbatim>\<open>name[i]\<close> is \<open>rd gbl i\<close>: the cell receives \<open>None\<close> when \<open>i\<close> lies
  outside the global array.
\<close>

fun init_loop ::
  "access \<Rightarrow> 'a::zero list \<Rightarrow> nat \<Rightarrow> nat list \<Rightarrow> 'a option list list \<Rightarrow> error + 'a option list list"
where
  "init_loop acc gbl tid [] buf = Inr buf"
| "init_loop acc gbl tid (i # js) buf =
     (if tid < length buf \<and> i < length (buf ! tid)
      then init_loop acc gbl tid js
             (buf[tid := (buf ! tid)[i := (if acc = INC then Some 0 else rd gbl i)]])
      else Inl OutOfBounds)"

definition c_reduction_init ::
  "arg \<Rightarrow> 'a::zero list \<Rightarrow> nat \<Rightarrow> 'a option list list \<Rightarrow> error + 'a option list list"
where
  "c_reduction_init a gbl tid buf =
     (case padding a of
        Inl e \<Rightarrow> Inl e
      | Inr d \<Rightarrow> init_loop (access a) gbl tid [0..<nat d] buf)"

text \<open>
  \<^verbatim>\<open>c_reduction_finalisation\<close>. The \<^verbatim>\<open>if/elif/elif\<close> chain binds \<^verbatim>\<open>combine\<close> for
  \<^verbatim>\<open>INC\<close>, \<^verbatim>\<open>MIN\<close> and \<^verbatim>\<open>MAX\<close> only; for any other access the \<^verbatim>\<open>return\<close>
  raises \<^verbatim>\<open>UnboundLocalError\<close>.
\<close>

definition combine :: "access \<Rightarrow> error + ('a::{plus,ord} \<Rightarrow> 'a \<Rightarrow> 'a)" where
  "combine acc =
     (if acc = INC then Inr (\<lambda>g l. g + l)
      else if acc = MIN_acc then Inr (\<lambda>g l. if g < l then g else l)
      else if acc = MAX_acc then Inr (\<lambda>g l. if g > l then g else l)
      else Inl UnboundLocalError)"

text \<open>\<^verbatim>\<open>for ( int i = 0; i < cdim; i++ ) gbl[i] = combine(gbl[i], name_l[thread][i])\<close>\<close>

fun fin_inner ::
  "('a \<Rightarrow> 'a \<Rightarrow> 'a) \<Rightarrow> 'a option list list \<Rightarrow> nat \<Rightarrow> nat list \<Rightarrow> 'a list \<Rightarrow> error + 'a list"
where
  "fin_inner f buf thread [] gbl = Inr gbl"
| "fin_inner f buf thread (i # js) gbl =
     (if thread < length buf \<and> i < length (buf ! thread) \<and> i < length gbl
      then (case buf ! thread ! i of
              None \<Rightarrow> Inl IndeterminateValue
            | Some l \<Rightarrow> fin_inner f buf thread js (gbl[i := f (gbl ! i) l]))
      else Inl OutOfBounds)"

text \<open>\<^verbatim>\<open>for ( int thread = 0; thread < nthread; thread++ ) { ... }\<close>\<close>

fun fin_outer ::
  "('a \<Rightarrow> 'a \<Rightarrow> 'a) \<Rightarrow> 'a option list list \<Rightarrow> nat list \<Rightarrow> nat list \<Rightarrow> 'a list \<Rightarrow> error + 'a list"
where
  "fin_outer f buf [] idxs gbl = Inr gbl"
| "fin_outer f buf (thread # ts) idxs gbl =
     (case fin_inner f buf thread idxs gbl of
        Inl e \<Rightarrow> Inl e
      | Inr gbl' \<Rightarrow> fin_outer f buf ts idxs gbl')"

definition c_reduction_finalisation ::
  "arg \<Rightarrow> nat \<Rightarrow> 'a::{plus,ord} option list list \<Rightarrow> 'a list \<Rightarrow> error + 'a list"
where
  "c_reduction_finalisation a nthread buf gbl =
     (case combine (access a) of
        Inl e \<Rightarrow> Inl e
      | Inr f \<Rightarrow> fin_outer f buf [0..<nthread] [0..<nat (cdim a)] gbl)"

subsection \<open>The sequential reference and values that do not compare\<close>

text \<open>
  Modelled from the spec: the sequential reference implementation, in which every
  contribution is applied to the global itself, in iteration order.
\<close>

definition seq_reduction :: "('a \<Rightarrow> 'a \<Rightarrow> 'a) \<Rightarrow> 'a list list \<Rightarrow> 'a list \<Rightarrow> 'a list" where
  "seq_reduction f cs gbl = fold (\<lambda>c g. map (\<lambda>i. f (g ! i) (c ! i)) [0..<length g]) cs gbl"

text \<open>
  The emitted texts work on any C scalar type. For a floating type the comparisons
  \<^verbatim>\<open><\<close> and \<^verbatim>\<open>>\<close> are false as soon as one operand is not a number, and a sum with
  such an operand is not a number. \<open>fval\<close> has a value of this kind beside the
  numbers, with the comparison and the sum C gives them.
\<close>

datatype fval = Num int | NaN

instantiation fval :: "{plus, ord}"
begin

definition less_fval :: "fval \<Rightarrow> fval \<Rightarrow> bool" where
  "less_fval x y = (case (x, y) of (Num a, Num b) \<Rightarrow> a < b | _ \<Rightarrow> False)"

definition less_eq_fval :: "fval \<Rightarrow> fval \<Rightarrow> bool" where
  "less_eq_fval x y = (case (x, y) of (Num a, Num b) \<Rightarrow> a \<le> b | _ \<Rightarrow> False)"

definition plus_fval :: "fval \<Rightarrow> fval \<Rightarrow> fval" where
  "plus_fval x y = (case (x, y) of (Num a, Num b) \<Rightarrow> Num (a + b) | _ \<Rightarrow> NaN)"

instance ..

end

subsection \<open>Parts and plans\<close>

text \<open>A part is \<^verbatim>\<open>part.offset\<close> and \<^verbatim>\<open>part.size\<close>.\<close>

record part =
  part_offset :: int
  part_size :: int

text \<open>The attributes of a plan that \<^verbatim>\<open>_compute\<close> and the wrapper read.\<close>

record plan =
  nblocks :: int
  ncolors :: int
  ncolblk :: "int list"
  blkmap :: "int list"
  nelems :: "int list"
  offset :: "int list"

text \<open>
  The exact ceiling of a quotient, by floor division. The code does not compute it;
  it is what the results of the code are compared with.
\<close>

definition ceil_div :: "int \<Rightarrow> int \<Rightarrow> int" where
  "ceil_div a b = - ((- a) div b)"

subsection \<open>Double precision\<close>

text \<open>
  \<^verbatim>\<open>part.size / float(partition_size)\<close> and the length of an \<^verbatim>\<open>np.arange\<close> are
  computed in IEEE double precision: 53 significant bits, results rounded to the
  nearest double, ties to the even one. A double is given by a pair \<open>(n, s)\<close> of
  integers and stands for \<open>n * 2^s\<close>.

  \<open>ilog2 n\<close> is the position of the leading bit of \<open>n\<close>, and \<open>expo p q\<close> the
  largest \<open>e\<close> with \<open>2^e \<le> p / q\<close>, for positive \<open>p\<close> and \<open>q\<close>.
\<close>

function ilog2 :: "int \<Rightarrow> int" where
  "ilog2 n = (if n < 2 then 0 else 1 + ilog2 (n div 2))"
  by pat_completeness auto
termination
  by (relation "measure nat") auto

declare ilog2.simps [simp del]

definition expo :: "int \<Rightarrow> int \<Rightarrow> int" where
  "expo p q =
     (let d = ilog2 p - ilog2 q
      in if q * 2 ^ nat d \<le> p * 2 ^ nat (- d) then d else d - 1)"

text \<open>The integer nearest to \<open>p / q\<close> for \<open>q > 0\<close>, a tie going to the even one.\<close>

definition rne :: "int \<Rightarrow> int \<Rightarrow> int" where
  "rne p q =
     (let k = p div q; r = p mod q
      in if 2 * r < q then k
         else if q < 2 * r then k + 1
         else if even k then k else k + 1)"

text \<open>
  The double nearest to \<open>p / q\<close> for positive \<open>p\<close> and \<open>q\<close>: the unit of the last
  place is \<open>2^s\<close> with \<open>s = e - 52\<close>, where the exponent \<open>e\<close> does not go below
  \<open>- 1022\<close> (subnormal numbers).
\<close>

definition round53 :: "int \<Rightarrow> int \<Rightarrow> int \<times> int" where
  "round53 p q =
     (let s = max (expo p q) (- 1022) - 52
      in (rne (p * 2 ^ nat (- s)) (q * 2 ^ nat s), s))"

text \<open>
  \<^verbatim>\<open>float(a)\<close> for a Python integer, and the conversion of the integer operand of a
  mixed division: the nearest double, which is again an integer, or
  \<^verbatim>\<open>OverflowError\<close> when it would reach \<open>2^1024\<close>.
\<close>

definition float_of_int :: "int \<Rightarrow> error + int" where
  "float_of_int a =
     (if a = 0 then Inr 0
      else case round53 \<bar>a\<bar> 1 of
             (n, s) \<Rightarrow>
               let v = (if 0 \<le> s then n * 2 ^ nat s else n div 2 ^ nat (- s))
               in if 2 ^ 1024 \<le> v then Inl OverflowError else Inr (sgn a * v))"

text \<open>The quotient of two doubles that are integers, the divisor not zero.\<close>

definition float_div :: "int \<Rightarrow> int \<Rightarrow> int \<times> int" where
  "float_div x y =
     (if x = 0 then (0, 0)
      else case round53 \<bar>x\<bar> \<bar>y\<bar> of (n, s) \<Rightarrow> (sgn x * sgn y * n, s))"

text \<open>\<^verbatim>\<open>int(math.ceil(x))\<close> for a double \<open>x\<close>.\<close>

definition ceil_double :: "int \<times> int \<Rightarrow> int" where
  "ceil_double x =
     (case x of (n, s) \<Rightarrow> if 0 \<le> s then n * 2 ^ nat s else - ((- n) div 2 ^ nat (- s)))"

text \<open>
  \<^verbatim>\<open>int(math.ceil(a / float(b)))\<close>: \<^verbatim>\<open>float(b)\<close> is formed first, then \<^verbatim>\<open>a\<close> is
  converted, then the divisor is tested for zero.
\<close>

definition ceil_div_float :: "int \<Rightarrow> int \<Rightarrow> error + int" where
  "ceil_div_float a b =
     (case float_of_int b of
        Inl e \<Rightarrow> Inl e
      | Inr y \<Rightarrow>
          (case float_of_int a of
             Inl e \<Rightarrow> Inl e
           | Inr x \<Rightarrow>
               if y = 0 then Inl ZeroDivisionError else Inr (ceil_double (float_div x y))))"

text \<open>
  The true division of two Python integers, which \<^verbatim>\<open>np.arange\<close> uses for its length:
  the double nearest to the exact quotient.
\<close>

definition true_div :: "int \<Rightarrow> int \<Rightarrow> error + int \<times> int" where
  "true_div a b =
     (if b = 0 then Inl ZeroDivisionError
      else case float_div a b of
             (n, s) \<Rightarrow>
               if 0 \<le> s \<and> 2 ^ 1024 \<le> \<bar>n\<bar> * 2 ^ nat s then Inl OverflowError
               else Inr (n, s))"

subsection \<open>Arrays of \<^verbatim>\<open>np.int32\<close>\<close>

text \<open>
  A value stored into an \<^verbatim>\<open>np.int32\<close> array is first converted to a C \<^verbatim>\<open>long\<close> of 64
  bits, which raises \<^verbatim>\<open>OverflowError\<close> when it does not fit, and then cut to its low 32
  bits, read as a signed number.
\<close>

definition int32 :: "int \<Rightarrow> int" where
  "int32 x = (x + 2 ^ 31) mod 2 ^ 32 - 2 ^ 31"

definition setitem_int32 :: "int \<Rightarrow> error + int" where
  "setitem_int32 x =
     (if - (2 ^ 63) \<le> x \<and> x < 2 ^ 63 then Inr (int32 x) else Inl OverflowError)"

text \<open>\<^verbatim>\<open>np.array(xs, dtype=np.int32)\<close> for a list of Python integers.\<close>

fun np_array_int32 :: "int list \<Rightarrow> error + int list" where
  "np_array_int32 [] = Inr []"
| "np_array_int32 (x # xs) =
     (case setitem_int32 x of
        Inl e \<Rightarrow> Inl e
      | Inr y \<Rightarrow>
          (case np_array_int32 xs of
             Inl e \<Rightarrow> Inl e
           | Inr ys \<Rightarrow> Inr (y # ys)))"

text \<open>
  \<^verbatim>\<open>np.arange(start, stop, step, dtype=np.int32)\<close>. The length is the ceiling of the
  true quotient \<^verbatim>\<open>(stop - start) / step\<close> and must fit a 64-bit index. \<^verbatim>\<open>start\<close> is
  stored in the first cell and, when there are two cells or more, \<^verbatim>\<open>start + step\<close> in
  the second; the remaining cells are filled with
  \<^verbatim>\<open>buffer[i] = start + i * delta\<close>, where \<^verbatim>\<open>start\<close> and \<^verbatim>\<open>delta\<close> are taken back from
  the two cells as 32-bit numbers and the result is cut to 32 bits again.
\<close>

definition np_arange :: "int \<Rightarrow> int \<Rightarrow> int \<Rightarrow> error + int list" where
  "np_arange start stop step =
     (case true_div (stop - start) step of
        Inl e \<Rightarrow> Inl e
      | Inr q \<Rightarrow>
          let len = ceil_double q
          in if 2 ^ 63 \<le> len then Inl OverflowError
             else if len \<le> 0 then Inr []
             else (case setitem_int32 start of
                     Inl e \<Rightarrow> Inl e
                   | Inr s0 \<Rightarrow>
                       if len = 1 then Inr [s0]
                       else (case setitem_int32 (start + step) of
                               Inl e \<Rightarrow> Inl e
                             | Inr s1 \<Rightarrow>
                                 Inr ([s0, s1]
                                      @ map (\<lambda>i. int32 (s0 + int i * int32 (s1 - s0)))
                                          [2..<nat len]))))"

subsection \<open>\<^verbatim>\<open>FakePlan\<close> and \<^verbatim>\<open>_get_plan\<close>\<close>

text \<open>
  \<^verbatim>\<open>FakePlan.__init__\<close>, statement by statement: \<^verbatim>\<open>nblocks\<close>, \<^verbatim>\<open>ncolors\<close>,
  \<^verbatim>\<open>ncolblk\<close>, \<^verbatim>\<open>blkmap\<close>, \<^verbatim>\<open>nelems\<close>, \<^verbatim>\<open>offset\<close>; the first statement that
  raises ends it. \<^verbatim>\<open>nblocks\<close> stays a Python integer; the four arrays are
  \<^verbatim>\<open>np.int32\<close>.
\<close>

definition FakePlan :: "part \<Rightarrow> int \<Rightarrow> error + plan" where
  "FakePlan p partition_size =
     (case ceil_div_float (part_size p) partition_size of
        Inl e \<Rightarrow> Inl e
      | Inr nb \<Rightarrow>
          (case np_array_int32 [nb] of
             Inl e \<Rightarrow> Inl e
           | Inr ncb \<Rightarrow>
               (case np_arange 0 nb 1 of
                  Inl e \<Rightarrow> Inl e
                | Inr bm \<Rightarrow>
                    (case np_array_int32
                            (map (\<lambda>i. min partition_size
                                         (part_size p - int i * partition_size))
                               [0..<nat nb]) of
                       Inl e \<Rightarrow> Inl e
                     | Inr ne \<Rightarrow>
                         (case np_arange (part_offset p) (part_offset p + part_size p)
                                 partition_size of
                            Inl e \<Rightarrow> Inl e
                          | Inr off \<Rightarrow>
                              Inr \<lparr>nblocks = nb, ncolors = 1, ncolblk = ncb, blkmap = bm,
                                   nelems = ne, offset = off\<rparr>)))))"

text \<open>
  A loop: its arguments and \<^verbatim>\<open>self._is_indirect\<close>, which the base class computes.
\<close>

record parloop =
  args :: "arg list"
  is_indirect :: bool

text \<open>
  \<^verbatim>\<open>_get_plan\<close>. \<^verbatim>\<open>_plan.Plan\<close> belongs to another module and is the parameter
  \<open>Plan\<close>; it is called with \<^verbatim>\<open>matrix_coloring=True\<close>, \<^verbatim>\<open>staging=False\<close> and
  \<^verbatim>\<open>thread_coloring=False\<close>.
\<close>

definition get_plan ::
  "(part \<Rightarrow> int \<Rightarrow> error + plan) \<Rightarrow> parloop \<Rightarrow> part \<Rightarrow> int \<Rightarrow> error + plan"
where
  "get_plan Plan pl p part_size' =
     (if is_indirect pl then Plan p part_size' else FakePlan p part_size')"

text \<open>\<^verbatim>\<open>_requires_matrix_coloring\<close>: \<^verbatim>\<open>return True\<close>.\<close>

definition requires_matrix_coloring :: "parloop \<Rightarrow> bool" where
  "requires_matrix_coloring pl = True"

subsection \<open>The wrapper and \<^verbatim>\<open>_compute\<close>\<close>

text \<open>
  The first five entries of \<^verbatim>\<open>self._jit_args\<close>. The entries after them are references
  to the data of the arguments, set once and never assigned again.
\<close>

record jit_args =
  ja_boffset :: "int option"
  ja_nblocks :: "int option"
  ja_blkmap :: "int list option"
  ja_offset :: "int list option"
  ja_nelems :: "int list option"

text \<open>
  What a run leaves behind. \<open>Call b n\<close> is a call of the compiled wrapper with
  \<^verbatim>\<open>boffset = b\<close> and \<^verbatim>\<open>nblocks = n\<close>; \<open>Parallel k\<close> is the entry of its parallel
  region with a team of \<open>k\<close> threads; \<open>Block bid\<close> is the execution of a block;
  \<open>Return\<close> is the return of the call, after the region has been joined.
\<close>

datatype event = Call int int | Parallel nat | Block int | Return

text \<open>
  \<open>jit\<close> is \<open>None\<close> until \<^verbatim>\<open>self._jit_args\<close> exists; \<open>plans\<close> lists the calls of
  \<^verbatim>\<open>_get_plan\<close>; \<open>kernel_calls\<close> lists the iterations the kernel was invoked on;
  \<open>data\<close> is the data of all arguments, reduction targets included.
\<close>

record 'd state =
  jit :: "jit_args option"
  plans :: "(part \<times> int) list"
  trace :: "event list"
  kernel_calls :: "int list"
  data :: 'd

text \<open>
  The block loop of the wrapper:
  \<^verbatim>\<open>for ( int __b = boffset; __b < boffset + nblocks; __b++ )\<close> with
  \<^verbatim>\<open>bid = blkmap[__b]\<close>, \<^verbatim>\<open>nelem = nelems[bid]\<close>, \<^verbatim>\<open>efirst = offset[bid]\<close> and the
  kernel invoked for \<^verbatim>\<open>i = efirst .. efirst + nelem - 1\<close>. The blocks of one call run
  on the threads of the team in no fixed order; they are listed in loop order, and
  \<open>data\<close> is given for that order.
\<close>

fun block_loop ::
  "(int \<Rightarrow> 'd \<Rightarrow> 'd) \<Rightarrow> int list \<Rightarrow> int list \<Rightarrow> int list \<Rightarrow> int list \<Rightarrow> 'd state
     \<Rightarrow> error + 'd state"
where
  "block_loop kern bm off ne [] s = Inr s"
| "block_loop kern bm off ne (b # bs) s =
     (case rd_int bm b of
        None \<Rightarrow> Inl OutOfBounds
      | Some bid \<Rightarrow>
          (case rd_int ne bid of
             None \<Rightarrow> Inl OutOfBounds
           | Some nelem \<Rightarrow>
               (case rd_int off bid of
                  None \<Rightarrow> Inl OutOfBounds
                | Some efirst \<Rightarrow>
                    block_loop kern bm off ne bs
                      (s\<lparr>trace := trace s @ [Block bid],
                         kernel_calls := kernel_calls s @ [efirst..efirst + nelem - 1],
                         data := fold kern [efirst..efirst + nelem - 1] (data s)\<rparr>))))"

text \<open>
  One call of the wrapper. \<^verbatim>\<open>nthread = omp_get_max_threads()\<close> is the parameter
  \<open>omp_max_threads\<close>; the parallel region follows with no test in between. The
  casts of \<^verbatim>\<open>boffset\<close> and \<^verbatim>\<open>nblocks\<close> to \<^verbatim>\<open>int\<close> leave a value of 32 bits as it
  is, and the values are kept as integers.
\<close>

definition wrapper ::
  "nat \<Rightarrow> (int \<Rightarrow> 'd \<Rightarrow> 'd) \<Rightarrow> int \<Rightarrow> int \<Rightarrow> int list \<Rightarrow> int list \<Rightarrow> int list \<Rightarrow> 'd state
     \<Rightarrow> error + 'd state"
where
  "wrapper omp_max_threads kern boffset nb bm off ne s =
     (let nthread = omp_max_threads in
      case block_loop kern bm off ne [boffset..boffset + nb - 1]
             (s\<lparr>trace := trace s @ [Call boffset nb, Parallel nthread]\<rparr>) of
        Inl e \<Rightarrow> Inl e
      | Inr s' \<Rightarrow> Inr (s'\<lparr>trace := trace s' @ [Return]\<rparr>))"

text \<open>
  The loop over the colours in \<^verbatim>\<open>_compute\<close>:
  \<^verbatim>\<open>for c in range(plan.ncolors)\<close> with \<^verbatim>\<open>nblocks = plan.ncolblk[c]\<close>, the call
  \<^verbatim>\<open>fun(*self._jit_args)\<close> and \<^verbatim>\<open>boffset += nblocks\<close>.
\<close>

fun color_loop ::
  "nat \<Rightarrow> (int \<Rightarrow> 'd \<Rightarrow> 'd) \<Rightarrow> plan \<Rightarrow> nat list \<Rightarrow> int \<Rightarrow> 'd state \<Rightarrow> error + 'd state"
where
  "color_loop omp kern pn [] boffset s = Inr s"
| "color_loop omp kern pn (c # cs) boffset s =
     (case rd (ncolblk pn) c of
        None \<Rightarrow> Inl IndexError
      | Some nb \<Rightarrow>
          (case wrapper omp kern boffset nb (blkmap pn) (offset pn) (nelems pn)
                  (s\<lparr>jit := map_option
                              (\<lambda>j. j\<lparr>ja_boffset := Some boffset, ja_nblocks := Some nb\<rparr>)
                              (jit s)\<rparr>) of
             Inl e \<Rightarrow> Inl e
           | Inr s' \<Rightarrow> color_loop omp kern pn cs (boffset + nb) s'))"

text \<open>
  \<^verbatim>\<open>ParLoop._compute\<close>, with the partition size 1024 it passes. The construction of
  the \<^verbatim>\<open>JITModule\<close> calls no kernel and touches no data; the entries of
  \<^verbatim>\<open>self._jit_args\<close> after the fifth are built once from the arguments and are not
  modelled beyond the field \<open>data\<close>.
\<close>

definition compute ::
  "nat \<Rightarrow> (part \<Rightarrow> int \<Rightarrow> error + plan) \<Rightarrow> (int \<Rightarrow> 'd \<Rightarrow> 'd) \<Rightarrow> parloop \<Rightarrow> part \<Rightarrow> 'd state
     \<Rightarrow> error + 'd state"
where
  "compute omp Plan kern pl p s =
     (let s1 = (case jit s of
                  None \<Rightarrow> s\<lparr>jit := Some \<lparr>ja_boffset = None, ja_nblocks = None,
                                         ja_blkmap = None, ja_offset = None,
                                         ja_nelems = None\<rparr>\<rparr>
                | Some j \<Rightarrow> s)
      in if part_size p > 0
         then (case get_plan Plan pl p 1024 of
                 Inl e \<Rightarrow> Inl e
               | Inr pn \<Rightarrow>
                   color_loop omp kern pn [0..<nat (ncolors pn)] 0
                     (s1\<lparr>plans := plans s1 @ [(p, 1024)],
                         jit := map_option
                                  (\<lambda>j. j\<lparr>ja_blkmap := Some (blkmap pn),
                                         ja_offset := Some (offset pn),
                                         ja_nelems := Some (nelems pn)\<rparr>)
                                  (jit s1)\<rparr>))
         else Inr s1)"

section \<open>Properties\<close>

subsection \<open>Padding of a reduction row\<close>

lemma pad_round_up: "c < 8 * (c div 8 + 1)" for c :: int
  by presburger

lemma pad_factor_pos: "1 \<le> k \<Longrightarrow> k \<le> 8 \<Longrightarrow> 1 \<le> 8 div k" for k :: int
  by (simp add: pos_imp_zdiv_pos_iff int_one_le_iff_zero_less)

lemma pad_mult_mono: "0 \<le> c \<Longrightarrow> c < x \<Longrightarrow> 1 \<le> m \<Longrightarrow> c < x * m" for c x m :: int
proof -
  assume a: "0 \<le> c" "c < x" "1 \<le> m"
  then have "0 \<le> x" by linarith
  with a have "x * 1 \<le> x * m" by (intro mult_left_mono)
  then have "x \<le> x * m" by (simp only: mult_1_right)
  with a show ?thesis by linarith
qed

text \<open>
  C7: the padded length of a row is at least the cardinality, for every cardinality and
  every element size. The code misses this for an element size of 16 bytes, where
  \<^verbatim>\<open>_padding / itemsize\<close> is 0: \<^verbatim>\<open>padding\<close> returns 0 for a cardinality of 1, and
  \<^verbatim>\<open>c_reduction_dec\<close> declares rows without a cell.
\<close>

theorem padding_zero_at_itemsize_16:
  "padding \<lparr>access = INC, cdim = 1, itemsize = 16, is_global_reduction = True, is_mat = False\<rparr>
     = Inr 0
   \<and> \<not> cdim \<lparr>access = INC, cdim = 1, itemsize = 16, is_global_reduction = True,
              is_mat = False\<rparr> \<le> 0
   \<and> c_reduction_dec \<lparr>access = INC, cdim = 1, itemsize = 16, is_global_reduction = True,
                      is_mat = False\<rparr>
       = Inr (replicate max_threads ([] :: int option list))"
  by (simp add: padding_def cache_padding_def c_reduction_dec_def)

text \<open>
  For every cardinality \<open>cdim \<ge> 0\<close> and every element size from 1 to 8 bytes,
  \<^verbatim>\<open>padding\<close> returns a length strictly greater than the cardinality, and the
  reduction buffer is declared with \<^verbatim>\<open>_max_threads\<close> rows of that length.
\<close>

lemma padding_exceeds_cdim:
  assumes "0 \<le> cdim a" and "1 \<le> itemsize a" and "itemsize a \<le> 8"
  shows "\<exists>d. padding a = Inr d \<and> cdim a < d
           \<and> c_reduction_dec a
               = Inr (replicate max_threads (replicate (nat d) (None :: 'a option)))"
proof -
  let ?d = "8 * (cdim a div 8 + 1) * (8 div itemsize a)"
  have p: "padding a = Inr ?d"
    using assms by (simp add: padding_def cache_padding_def)
  have r: "cdim a < 8 * (cdim a div 8 + 1)"
    by (rule pad_round_up)
  have f: "1 \<le> 8 div itemsize a"
    using assms(2,3) by (rule pad_factor_pos)
  have "cdim a < ?d"
    using assms(1) r f by (rule pad_mult_mono)
  with p show ?thesis by (simp add: c_reduction_dec_def)
qed

subsection \<open>The capability query\<close>

text \<open>
  C10: \<^verbatim>\<open>_requires_matrix_coloring\<close> is true of every loop, also of one with no
  argument at all, so its value is the same for any two loops.
\<close>

theorem requires_matrix_coloring_always:
  "requires_matrix_coloring pl
   \<and> requires_matrix_coloring \<lparr>args = [], is_indirect = False\<rparr>
   \<and> requires_matrix_coloring pl = requires_matrix_coloring pl'"
  by (simp add: requires_matrix_coloring_def)

subsection \<open>The finalisation loops\<close>

lemma fin_inner_result:
  assumes "thread < length buf" and "distinct js"
    and "\<forall>i\<in>set js. i < length gbl \<and> i < length (buf ! thread) \<and> buf ! thread ! i = Some (v i)"
  shows "fin_inner f buf thread js gbl
           = Inr (map (\<lambda>i. if i \<in> set js then f (gbl ! i) (v i) else gbl ! i) [0..<length gbl])"
  using assms
proof (induction js arbitrary: gbl)
  case Nil
  then show ?case by (simp add: map_nth)
next
  case (Cons j js)
  let ?g = "gbl[j := f (gbl ! j) (v j)]"
  have step: "fin_inner f buf thread (j # js) gbl = fin_inner f buf thread js ?g"
    using Cons.prems by simp
  have "fin_inner f buf thread js ?g
          = Inr (map (\<lambda>i. if i \<in> set js then f (?g ! i) (v i) else ?g ! i) [0..<length ?g])"
    using Cons.prems by (intro Cons.IH) auto
  also have "map (\<lambda>i. if i \<in> set js then f (?g ! i) (v i) else ?g ! i) [0..<length ?g]
          = map (\<lambda>i. if i \<in> set (j # js) then f (gbl ! i) (v i) else gbl ! i) [0..<length gbl]"
    using Cons.prems by (auto simp: nth_list_update)
  finally show ?case using step by simp
qed

lemma fin_inner_upt:
  assumes "thread < length buf" and "cd \<le> length gbl" and "cd \<le> length (buf ! thread)"
    and "\<forall>i<cd. buf ! thread ! i = Some (v i)"
  shows "fin_inner f buf thread [0..<cd] gbl
           = Inr (map (\<lambda>i. if i < cd then f (gbl ! i) (v i) else gbl ! i) [0..<length gbl])"
  using fin_inner_result [of thread buf "[0..<cd]" gbl v f] assms by simp

lemma fin_outer_result:
  assumes "\<forall>t\<in>set ts. t < length buf \<and> cd \<le> length (buf ! t) \<and> (\<forall>i<cd. buf ! t ! i = Some (v t i))"
    and "cd \<le> length gbl"
  shows "fin_outer f buf ts [0..<cd] gbl
           = Inr (map (\<lambda>i. if i < cd then foldl f (gbl ! i) (map (\<lambda>t. v t i) ts) else gbl ! i)
                    [0..<length gbl])"
  using assms
proof (induction ts arbitrary: gbl)
  case Nil
  then show ?case by (auto intro: nth_equalityI)
next
  case (Cons t ts)
  let ?g = "map (\<lambda>i. if i < cd then f (gbl ! i) (v t i) else gbl ! i) [0..<length gbl]"
  have inner: "fin_inner f buf t [0..<cd] gbl = Inr ?g"
    using Cons.prems by (intro fin_inner_upt) auto
  have "fin_outer f buf ts [0..<cd] ?g
          = Inr (map (\<lambda>i. if i < cd then foldl f (?g ! i) (map (\<lambda>t. v t i) ts) else ?g ! i)
                   [0..<length ?g])"
    using Cons.prems by (intro Cons.IH) auto
  then show ?case using inner by simp
qed

lemma finalisation_rows:
  assumes "combine (access a) = Inr f"
    and "nthread \<le> length buf" and "length gbl = nat (cdim a)"
    and "\<forall>t<nthread. nat (cdim a) \<le> length (buf ! t) \<and> (\<forall>i<nat (cdim a). buf ! t ! i = Some (v t i))"
  shows "c_reduction_finalisation a nthread buf gbl
           = Inr (map (\<lambda>i. foldl f (gbl ! i) (map (\<lambda>t. v t i) [0..<nthread])) [0..<length gbl])"
proof -
  have "fin_outer f buf [0..<nthread] [0..<nat (cdim a)] gbl
          = Inr (map (\<lambda>i. if i < nat (cdim a) then foldl f (gbl ! i) (map (\<lambda>t. v t i) [0..<nthread]) else gbl ! i)
                   [0..<length gbl])"
    using assms by (intro fin_outer_result) auto
  then show ?thesis using assms by (simp add: c_reduction_finalisation_def)
qed

subsection \<open>Initialisation\<close>

lemma init_loop_result:
  assumes "tid < length buf" and "\<forall>i\<in>set js. i < length (buf ! tid)"
  shows "init_loop acc gbl tid js buf
           = Inr (buf[tid := map (\<lambda>i. if i \<in> set js then (if acc = INC then Some 0 else rd gbl i)
                                      else buf ! tid ! i) [0..<length (buf ! tid)]])"
  using assms
proof (induction js arbitrary: buf)
  case Nil
  then show ?case by (simp add: map_nth)
next
  case (Cons j js)
  let ?c = "\<lambda>i. if acc = INC then Some 0 else rd gbl i"
  let ?b = "buf[tid := (buf ! tid)[j := ?c j]]"
  have step: "init_loop acc gbl tid (j # js) buf = init_loop acc gbl tid js ?b"
    using Cons.prems by simp
  have row: "?b ! tid = (buf ! tid)[j := ?c j]"
    using Cons.prems by simp
  have "init_loop acc gbl tid js ?b
          = Inr (?b[tid := map (\<lambda>i. if i \<in> set js then ?c i else ?b ! tid ! i) [0..<length (?b ! tid)]])"
    using Cons.prems by (intro Cons.IH) auto
  also have "map (\<lambda>i. if i \<in> set js then ?c i else ?b ! tid ! i) [0..<length (?b ! tid)]
          = map (\<lambda>i. if i \<in> set (j # js) then ?c i else buf ! tid ! i) [0..<length (buf ! tid)]"
    unfolding row using Cons.prems by (auto simp: nth_list_update)
  finally show ?case using step by simp
qed

lemma c_reduction_init_result:
  assumes "padding a = Inr d" and "tid < length buf" and "length (buf ! tid) = nat d"
  shows "c_reduction_init a gbl tid buf
           = Inr (buf[tid := map (\<lambda>i. if access a = INC then Some 0 else rd gbl i) [0..<nat d]])"
proof -
  let ?A = "map (\<lambda>i. if i \<in> set [0..<nat d]
                        then (if access a = INC then Some 0 else rd gbl i)
                        else buf ! tid ! i) [0..<length (buf ! tid)]"
  have same: "?A = map (\<lambda>i. if access a = INC then Some 0 else rd gbl i) [0..<nat d]"
    using assms by auto
  have "c_reduction_init a gbl tid buf = init_loop (access a) gbl tid [0..<nat d] buf"
    using assms(1) by (simp add: c_reduction_init_def)
  also have "\<dots> = Inr (buf[tid := ?A])"
    using assms by (intro init_loop_result) auto
  finally show ?thesis
    by (simp only: same)
qed

lemma seq_reduction_length [simp]: "length (seq_reduction f cs gbl) = length gbl"
  unfolding seq_reduction_def by (induction cs arbitrary: gbl) auto

lemma seq_reduction_cell:
  "i < length gbl \<Longrightarrow> seq_reduction f cs gbl ! i = foldl f (gbl ! i) (map (\<lambda>c. c ! i) cs)"
  unfolding seq_reduction_def by (induction cs arbitrary: gbl) auto

subsection \<open>Folds over the rows of the threads\<close>

lemma foldl_assoc_comm:
  assumes "\<And>x y z. f (f x y) z = f x (f y z)" and "\<And>x y. f x y = f y x"
  shows "foldl f (f a b) xs = f a (foldl f b xs)"
proof (induction xs arbitrary: b)
  case Nil
  show ?case by simp
next
  case (Cons x xs)
  have "f (f a b) x = f a (f b x)" by (rule assms(1))
  then show ?case using Cons.IH [of "f b x"] by simp
qed

lemma foldl_rows:
  assumes assoc: "\<And>x y z. f (f x y) z = f x (f y z)" and comm: "\<And>x y. f x y = f y x"
    and unit: "\<And>ys. f (foldl f g ys) e = foldl f g ys"
  shows "foldl f (foldl f g ys) (map (\<lambda>t. foldl f e (w t)) ts) = foldl f g (ys @ concat (map w ts))"
proof (induction ts arbitrary: ys)
  case Nil
  show ?case by simp
next
  case (Cons t ts)
  have "f (foldl f g ys) (foldl f e (w t)) = foldl f (f (foldl f g ys) e) (w t)"
    by (rule foldl_assoc_comm [OF assoc comm, symmetric])
  also have "\<dots> = foldl f g (ys @ w t)"
    by (simp add: unit)
  finally have "f (foldl f g ys) (foldl f e (w t)) = foldl f g (ys @ w t)" .
  then show ?case using Cons.IH [of "ys @ w t"] by simp
qed

lemma foldl_mset_cong:
  assumes assoc: "\<And>x y z. f (f x y) z = f x (f y z)" and comm: "\<And>x y. f x y = f y x"
    and "mset xs = mset ys"
  shows "foldl f g xs = foldl f g ys"
proof -
  have "fold (\<lambda>x a. f a x) xs = fold (\<lambda>x a. f a x) ys"
  proof (rule fold_multiset_equiv)
    show "mset xs = mset ys" by fact
    fix x y
    show "(\<lambda>a. f a x) \<circ> (\<lambda>a. f a y) = (\<lambda>a. f a y) \<circ> (\<lambda>a. f a x)"
    proof
      fix a
      have "f (f a y) x = f a (f y x)" by (rule assoc)
      also have "\<dots> = f a (f x y)" by (simp add: comm [of y x])
      also have "\<dots> = f (f a x) y" by (rule assoc [symmetric])
      finally show "((\<lambda>a. f a x) \<circ> (\<lambda>a. f a y)) a = ((\<lambda>a. f a y) \<circ> (\<lambda>a. f a x)) a"
        by simp
    qed
  qed
  then show ?thesis by (simp add: foldl_conv_fold)
qed

lemma foldl_rows_mset:
  assumes assoc: "\<And>x y z. f (f x y) z = f x (f y z)" and comm: "\<And>x y. f x y = f y x"
    and unit: "\<And>ys. f (foldl f g ys) e = foldl f g ys"
    and "mset (concat (map w ts)) = mset cs"
  shows "foldl f g (map (\<lambda>t. foldl f e (map h (w t))) ts) = foldl f g (map h cs)"
proof -
  have "foldl f (foldl f g []) (map (\<lambda>t. foldl f e ((map h \<circ> w) t)) ts)
          = foldl f g ([] @ concat (map (map h \<circ> w) ts))"
    by (rule foldl_rows [OF assoc comm unit])
  then have "foldl f g (map (\<lambda>t. foldl f e (map h (w t))) ts)
          = foldl f g (map h (concat (map w ts)))"
    by (simp add: map_concat comp_def)
  also have "\<dots> = foldl f g (map h cs)"
  proof (rule foldl_mset_cong [OF assoc comm])
    have "mset (map h (concat (map w ts))) = image_mset h (mset (concat (map w ts)))"
      by simp
    also have "\<dots> = image_mset h (mset cs)" by (simp only: assms(4))
    finally show "mset (map h (concat (map w ts))) = mset (map h cs)" by simp
  qed
  finally show ?thesis .
qed

lemma fin_inner_cong:
  assumes "\<forall>i\<in>set js. (t < length B \<and> i < length (B ! t)) = (t < length B' \<and> i < length (B' ! t))"
    and "\<forall>i\<in>set js. t < length B \<and> i < length (B ! t) \<longrightarrow> B ! t ! i = B' ! t ! i"
  shows "fin_inner f B t js g = fin_inner f B' t js g"
  using assms
proof (induction js arbitrary: g)
  case Nil
  show ?case by simp
next
  case (Cons j js)
  show ?case
  proof (cases "t < length B \<and> j < length (B ! t) \<and> j < length g")
    case True
    with Cons.prems have "t < length B' \<and> j < length (B' ! t)" and "B ! t ! j = B' ! t ! j"
      by auto
    with True Cons.prems show ?thesis
      by (auto split: option.splits intro!: Cons.IH)
  next
    case False
    with Cons.prems have "\<not> (t < length B' \<and> j < length (B' ! t) \<and> j < length g)"
      by auto
    with False show ?thesis by auto
  qed
qed

lemma fin_outer_cong:
  assumes "\<forall>t\<in>set ts. \<forall>i\<in>set js.
             (t < length B \<and> i < length (B ! t)) = (t < length B' \<and> i < length (B' ! t))"
    and "\<forall>t\<in>set ts. \<forall>i\<in>set js. t < length B \<and> i < length (B ! t) \<longrightarrow> B ! t ! i = B' ! t ! i"
  shows "fin_outer f B ts js g = fin_outer f B' ts js g"
  using assms
proof (induction ts arbitrary: g)
  case Nil
  show ?case by simp
next
  case (Cons t ts)
  have "fin_inner f B t js g = fin_inner f B' t js g"
    using Cons.prems by (intro fin_inner_cong) auto
  moreover have "fin_outer f B ts js g' = fin_outer f B' ts js g'" for g'
    using Cons.prems by (intro Cons.IH) auto
  ultimately show ?case by (simp split: sum.splits)
qed

lemma finalisation_ignores_padding:
  "c_reduction_finalisation a nthread B G
     = c_reduction_finalisation a nthread (map (take (nat (cdim a))) (take nthread B)) G"
proof (cases "combine (access a) :: error + ('a \<Rightarrow> 'a \<Rightarrow> 'a)")
  case (Inl e)
  then show ?thesis by (simp add: c_reduction_finalisation_def)
next
  case (Inr f)
  have "fin_outer f B [0..<nthread] [0..<nat (cdim a)] G
          = fin_outer f (map (take (nat (cdim a))) (take nthread B)) [0..<nthread] [0..<nat (cdim a)] G"
    by (intro fin_outer_cong) auto
  with Inr show ?thesis by (simp add: c_reduction_finalisation_def)
qed



lemma combine_MIN: "combine MIN_acc = Inr (min :: 'a::{linorder,plus} \<Rightarrow> 'a \<Rightarrow> 'a)"
  by (auto simp: combine_def min_def fun_eq_iff)

lemma combine_MAX: "combine MAX_acc = Inr (max :: 'a::{linorder,plus} \<Rightarrow> 'a \<Rightarrow> 'a)"
  by (auto simp: combine_def max_def fun_eq_iff)

lemma foldl_idem_unit:
  assumes assoc: "\<And>x y z. f (f x y) z = f x (f y z)" and comm: "\<And>x y. f x y = f y x"
    and idem: "\<And>x. f x x = x"
  shows "f (foldl f g ys) g = foldl f g ys"
proof -
  have "f (foldl f g ys) g = f g (foldl f g ys)" by (rule comm)
  also have "\<dots> = foldl f (f g g) ys" by (rule foldl_assoc_comm [OF assoc comm, symmetric])
  also have "\<dots> = foldl f g ys" by (simp only: idem)
  finally show ?thesis .
qed

lemma padding_gt_cdim:
  assumes "0 \<le> cdim a" and "1 \<le> itemsize a" and "itemsize a \<le> 8"
  shows "padding a = Inr (8 * (cdim a div 8 + 1) * (8 div itemsize a))"
    and "cdim a < 8 * (cdim a div 8 + 1) * (8 div itemsize a)"
proof -
  show "padding a = Inr (8 * (cdim a div 8 + 1) * (8 div itemsize a))"
    using assms by (simp add: padding_def cache_padding_def)
  have r: "cdim a < 8 * (cdim a div 8 + 1)"
    by (rule pad_round_up)
  have f: "1 \<le> 8 div itemsize a"
    using assms(2,3) by (rule pad_factor_pos)
  show "cdim a < 8 * (cdim a div 8 + 1) * (8 div itemsize a)"
    using assms(1) r f by (rule pad_mult_mono)
qed

subsection \<open>Global reductions\<close>

lemma combine_MIN_ternary:
  "combine MIN_acc = Inr (\<lambda>g l. if g < l then g else l)"
  by (simp add: combine_def)

lemma combine_MAX_ternary:
  "combine MAX_acc = Inr (\<lambda>g l. if g > l then g else l)"
  by (simp add: combine_def)




text \<open>
  C3, as stated: for every \<^verbatim>\<open>MIN\<close> or \<^verbatim>\<open>MAX\<close> argument the result equals the
  sequential fold, whatever the thread count. With 33 threads finalisation reads
  \<^verbatim>\<open>name_l[32]\<close>, outside the buffer of 32 rows. With a value that is not a number the
  result depends on how the contributions are grouped: one thread that folds the
  contributions \<open>NaN, 20\<close> into its copy of the global 10 holds 20 in its row, and
  finalisation returns 10, where the sequential fold of the same contributions returns
  20.
\<close>

theorem minmax_fold_counterexample:
  "c_reduction_dec \<lparr>access = MIN_acc, cdim = 1, itemsize = 8, is_global_reduction = True,
                    is_mat = False\<rparr>
     = Inr (replicate 32 (replicate 8 (None :: int option)))
   \<and> c_reduction_finalisation
       \<lparr>access = MIN_acc, cdim = 1, itemsize = 8, is_global_reduction = True, is_mat = False\<rparr>
       33 (replicate 32 (replicate 8 (Some 1))) [10 :: int]
     = Inl OutOfBounds
   \<and> foldl (\<lambda>g l. if g < l then g else l) (Num 10) [NaN, Num 20] = Num 20
   \<and> c_reduction_finalisation
       \<lparr>access = MIN_acc, cdim = 1, itemsize = 8, is_global_reduction = True, is_mat = False\<rparr>
       1 [[Some (Num 20)]] [Num 10]
     = Inr [Num 10]
   \<and> seq_reduction (\<lambda>g l. if g < l then g else l) [[NaN], [Num 20]] [Num 10] = [Num 20]"
  by code_simp

text \<open>
  C3, amended: for a \<^verbatim>\<open>MIN\<close> (\<^verbatim>\<open>MAX\<close>) argument and a thread count not above the
  number of rows of the buffer, each of these rows holding \<open>cdim\<close> written values,
  finalisation leaves at each index the fold of the C expression
  \<^verbatim>\<open>g < l ? g : l\<close> (\<^verbatim>\<open>g > l ? g : l\<close>) over the initial global value and the rows, in
  increasing thread order. For values of a linear order, when each row holds the fold
  of the contributions of its thread starting from the initial global value, the
  result is the sequential fold of all contributions, however they are shared among the
  threads.
\<close>

theorem minmax_finalisation_fold:
  fixes G0 :: "'a::{plus,ord} list" and H0 :: "'b::{linorder,plus} list"
  assumes acc: "access a = MIN_acc \<or> access a = MAX_acc"
    and len: "length G0 = nat (cdim a)"
    and rows: "nthread \<le> length buf"
    and cells: "\<forall>t<nthread. nat (cdim a) \<le> length (buf ! t)
                  \<and> (\<forall>i<nat (cdim a). buf ! t ! i = Some (loc t i))"
    and llen: "length H0 = nat (cdim a)"
    and lrows: "nthread \<le> length lbuf"
    and lcells: "\<forall>t<nthread. nat (cdim a) \<le> length (lbuf ! t)
                   \<and> (\<forall>i<nat (cdim a).
                         lbuf ! t ! i
                           = Some (foldl (if access a = MIN_acc then min else max) (H0 ! i)
                                     (map (\<lambda>c. c ! i) (work t))))"
    and cs: "mset (concat (map work [0..<nthread])) = mset cs"
  shows "c_reduction_finalisation a nthread buf G0
           = Inr (map (\<lambda>i. foldl (if access a = MIN_acc
                                  then (\<lambda>g l. if g < l then g else l)
                                  else (\<lambda>g l. if g > l then g else l))
                             (G0 ! i) (map (\<lambda>t. loc t i) [0..<nthread]))
                    [0..<length G0])
       \<and> c_reduction_finalisation a nthread lbuf H0
           = Inr (seq_reduction (if access a = MIN_acc then min else max) cs H0)"
proof -
  define t :: "'a \<Rightarrow> 'a \<Rightarrow> 'a" where
    "t = (if access a = MIN_acc then (\<lambda>g l. if g < l then g else l)
          else (\<lambda>g l. if g > l then g else l))"
  define f :: "'b \<Rightarrow> 'b \<Rightarrow> 'b" where "f = (if access a = MIN_acc then min else max)"
  have ct: "combine (access a) = Inr t"
    using acc by (auto simp: t_def combine_MIN_ternary combine_MAX_ternary)
  have cf: "combine (access a) = Inr f"
    using acc by (auto simp: f_def combine_MIN combine_MAX)
  have assoc: "f (f x y) z = f x (f y z)" for x y z
    by (simp add: f_def min.assoc max.assoc)
  have comm: "f x y = f y x" for x y
    by (simp add: f_def min.commute max.commute)
  have idem: "f x x = x" for x
    by (simp add: f_def)
  have fin: "c_reduction_finalisation a nthread buf G0
           = Inr (map (\<lambda>i. foldl t (G0 ! i) (map (\<lambda>t. loc t i) [0..<nthread])) [0..<length G0])"
    using ct rows len cells by (rule finalisation_rows)
  have lfin: "c_reduction_finalisation a nthread lbuf H0
           = Inr (map (\<lambda>i. foldl f (H0 ! i)
                           (map (\<lambda>t. foldl f (H0 ! i) (map (\<lambda>c. c ! i) (work t))) [0..<nthread]))
                    [0..<length H0])"
    using cf lrows llen lcells unfolding f_def [symmetric] by (rule finalisation_rows)
  have cell: "foldl f (H0 ! i) (map (\<lambda>t. foldl f (H0 ! i) (map (\<lambda>c. c ! i) (work t))) [0..<nthread])
                = foldl f (H0 ! i) (map (\<lambda>c. c ! i) cs)" for i
  proof (rule foldl_rows_mset)
    show "f (foldl f (H0 ! i) ys) (H0 ! i) = foldl f (H0 ! i) ys" for ys
      by (rule foldl_idem_unit) (rule assoc comm idem)+
  qed (rule assoc comm cs)+
  have "map (\<lambda>i. foldl f (H0 ! i)
                  (map (\<lambda>t. foldl f (H0 ! i) (map (\<lambda>c. c ! i) (work t))) [0..<nthread]))
          [0..<length H0]
          = seq_reduction f cs H0"
    by (intro nth_equalityI) (simp_all add: cell seq_reduction_cell)
  with lfin have "c_reduction_finalisation a nthread lbuf H0 = Inr (seq_reduction f cs H0)"
    by simp
  with fin show ?thesis
    unfolding t_def f_def by blast
qed

theorem minmax_finalisation_fold_witness:
  "c_reduction_finalisation
     \<lparr>access = MIN_acc, cdim = 2, itemsize = 8, is_global_reduction = True, is_mat = False\<rparr> 2
     [[Some NaN, Some (Num 25)], [Some (Num 30), Some (Num 4)]] [Num 10, Num 20]
     = Inr [Num 30, Num 4]
   \<and> c_reduction_finalisation
       \<lparr>access = MIN_acc, cdim = 2, itemsize = 8, is_global_reduction = True, is_mat = False\<rparr> 2
       [[Some 1, Some 20], [Some 10, Some 4]] [10, 20 :: int] = Inr [1, 4]
   \<and> seq_reduction min [[30, 4], [1, 25], [50, 6]] [10, 20 :: int] = [1, 4]"
proof -
  let ?a = "\<lparr>access = MIN_acc, cdim = 2, itemsize = 8, is_global_reduction = True, is_mat = False\<rparr>"
  let ?buf = "[[Some NaN, Some (Num 25)], [Some (Num 30), Some (Num 4)]]"
  let ?loc = "\<lambda>t i. the (?buf ! t ! i)"
  let ?lbuf = "[[Some 1, Some 20], [Some 10, Some (4::int)]]"
  let ?work = "\<lambda>t::nat. if t = 0 then [[1, 25 :: int]] else [[30, 4], [50, 6]]"
  have two: "[0..<2] = [0, Suc 0]" by (simp add: upt_rec)
  have lt2: "(\<forall>t<2. P t) = (P 0 \<and> P (Suc 0))" for P :: "nat \<Rightarrow> bool"
    by (auto simp: less_2_cases_iff)
  have h: "access ?a = MIN_acc \<or> access ?a = MAX_acc"
    "length [Num 10, Num 20] = nat (cdim ?a)"
    "2 \<le> length ?buf"
    "\<forall>t<2. nat (cdim ?a) \<le> length (?buf ! t) \<and> (\<forall>i<nat (cdim ?a). ?buf ! t ! i = Some (?loc t i))"
    "length [10, 20 :: int] = nat (cdim ?a)"
    "2 \<le> length ?lbuf"
    "\<forall>t<2. nat (cdim ?a) \<le> length (?lbuf ! t)
        \<and> (\<forall>i<nat (cdim ?a).
              ?lbuf ! t ! i = Some (foldl (if access ?a = MIN_acc then min else max)
                                      ([10, 20 :: int] ! i) (map (\<lambda>c. c ! i) (?work t))))"
    "mset (concat (map ?work [0..<2])) = mset [[30, 4], [1, 25], [50, 6]]"
    by (simp_all add: lt2 two)
  show ?thesis
    using minmax_finalisation_fold [OF h]
    by (simp add: two seq_reduction_def less_fval_def)
qed

text \<open>
  C4: initialisation sets the row of a thread to zero for \<^verbatim>\<open>INC\<close> and to the global
  value for \<^verbatim>\<open>MIN\<close> and \<^verbatim>\<open>MAX\<close>, so that an untouched row leaves the fold
  unchanged. The code misses this for an element size of 16 bytes: \<^verbatim>\<open>padding\<close> is 0,
  the rows are declared with no cell, the initialisation loop writes nothing, and the
  fold of the row of thread 0 into the global reads outside the row.
\<close>

theorem reduction_init_empty_row:
  "padding \<lparr>access = MIN_acc, cdim = 1, itemsize = 16, is_global_reduction = True,
            is_mat = False\<rparr> = Inr 0
   \<and> c_reduction_dec \<lparr>access = MIN_acc, cdim = 1, itemsize = 16, is_global_reduction = True,
                      is_mat = False\<rparr>
       = Inr (replicate max_threads ([] :: int option list))
   \<and> c_reduction_init \<lparr>access = MIN_acc, cdim = 1, itemsize = 16, is_global_reduction = True,
                       is_mat = False\<rparr> [10 :: int] 0 (replicate max_threads [])
       = Inr (replicate max_threads [])
   \<and> fin_inner (\<lambda>g l. if g < l then g else l) (replicate max_threads []) 0 [0..<1] [10 :: int]
       = Inl OutOfBounds"
  by (simp add: padding_def cache_padding_def c_reduction_dec_def c_reduction_init_def
      max_threads_def)

text \<open>
  Where the element size is between 1 and 8 bytes, the padded row holds the \<open>cdim\<close>
  elements: initialisation of the row of thread \<open>tid\<close> writes zero to every cell for
  \<^verbatim>\<open>INC\<close>, and the global value to each of the \<open>cdim\<close> cells of the row for the other
  accesses; the other rows are untouched, and folding a row that received no
  contribution into the global leaves the global as it was.
\<close>

lemma reduction_init_row:
  fixes G0 :: "'a::{monoid_add,ord} list"
  assumes acc: "access a = INC \<or> access a = MIN_acc \<or> access a = MAX_acc"
    and cd: "0 \<le> cdim a" and isz: "1 \<le> itemsize a" "itemsize a \<le> 8"
    and len: "length G0 = nat (cdim a)"
    and pad: "padding a = Inr d"
    and tid: "tid < length buf" and row: "length (buf ! tid) = nat d"
  shows "\<exists>buf' f. c_reduction_init a G0 tid buf = Inr buf'
           \<and> length buf' = length buf
           \<and> (\<forall>t<length buf. t \<noteq> tid \<longrightarrow> buf' ! t = buf ! t)
           \<and> (access a = INC \<longrightarrow> buf' ! tid = replicate (nat d) (Some 0))
           \<and> (access a \<noteq> INC \<longrightarrow> (\<forall>i<length G0. buf' ! tid ! i = Some (G0 ! i)))
           \<and> combine (access a) = Inr f
           \<and> fin_inner f buf' tid [0..<nat (cdim a)] G0 = Inr G0"
proof -
  let ?row = "map (\<lambda>i. if access a = INC then Some 0 else rd G0 i) [0..<nat d]"
  let ?b = "buf[tid := ?row]"
  let ?v = "\<lambda>i. if access a = INC then 0 else G0 ! i"
  obtain f :: "'a \<Rightarrow> 'a \<Rightarrow> 'a" where f: "combine (access a) = Inr f"
    using acc by (auto simp: combine_def)
  have ff: "f g (?v i) = g" if "g = G0 ! i" for g i
    using f acc that by (auto simp: combine_def)
  have lt: "cdim a < d"
    using padding_gt_cdim [OF cd isz] pad by simp
  have init: "c_reduction_init a G0 tid buf = Inr ?b"
    using pad tid row by (rule c_reduction_init_result)
  have cells: "\<forall>i<nat (cdim a). ?b ! tid ! i = Some (?v i)"
    using tid lt len by (simp add: rd_def)
  have "fin_inner f ?b tid [0..<nat (cdim a)] G0
          = Inr (map (\<lambda>i. if i < nat (cdim a) then f (G0 ! i) (?v i) else G0 ! i) [0..<length G0])"
    using tid lt len cells by (intro fin_inner_upt) auto
  also have "map (\<lambda>i. if i < nat (cdim a) then f (G0 ! i) (?v i) else G0 ! i) [0..<length G0] = G0"
    by (intro nth_equalityI) (simp_all add: ff)
  finally have fold: "fin_inner f ?b tid [0..<nat (cdim a)] G0 = Inr G0" .
  have inc: "access a = INC \<longrightarrow> ?b ! tid = replicate (nat d) (Some 0)"
    using tid by (auto intro: nth_equalityI)
  have other: "access a \<noteq> INC \<longrightarrow> (\<forall>i<length G0. ?b ! tid ! i = Some (G0 ! i))"
    using cells len by auto
  from init fold inc other f show ?thesis
    by (intro exI [of _ ?b] exI [of _ f]) simp
qed

text \<open>
  C9: for a \<^verbatim>\<open>MIN\<close> or \<^verbatim>\<open>MAX\<close> argument whose padded row is longer than its
  cardinality, initialisation fetches \<^verbatim>\<open>name[i]\<close> for every \<open>i\<close> below the padded
  length, and from \<open>i = cdim\<close> on these reads lie outside the global array (\<open>rd\<close>
  gives \<open>None\<close>). Finalisation gives the same result when every row is cut down to its
  first \<open>cdim\<close> cells: the padding cells are never read.
\<close>

theorem init_reads_beyond_cdim:
  fixes G0 :: "'a::{zero,plus,ord} list"
  assumes acc: "access a = MIN_acc \<or> access a = MAX_acc"
    and pad: "padding a = Inr d" and lt: "cdim a < d" and cd: "0 \<le> cdim a"
    and len: "length G0 = nat (cdim a)"
    and tid: "tid < length buf" and row: "length (buf ! tid) = nat d"
  shows "(\<exists>buf'. c_reduction_init a G0 tid buf = Inr buf'
            \<and> (\<forall>i<nat d. buf' ! tid ! i = rd G0 i)
            \<and> (\<forall>i<nat d. nat (cdim a) \<le> i \<longrightarrow> rd G0 i = None)
            \<and> nat (cdim a) < nat d \<and> buf' ! tid ! nat (cdim a) = None)
       \<and> c_reduction_finalisation a nthread B G
           = c_reduction_finalisation a nthread (map (take (nat (cdim a))) (take nthread B)) G"
proof -
  let ?row = "map (\<lambda>i. if access a = INC then Some 0 else rd G0 i) [0..<nat d]"
  let ?b = "buf[tid := ?row]"
  have ninc: "access a \<noteq> INC" using acc by auto
  have init: "c_reduction_init a G0 tid buf = Inr ?b"
    using pad tid row by (rule c_reduction_init_result)
  have c1: "\<forall>i<nat d. ?b ! tid ! i = rd G0 i"
    using tid ninc by simp
  have c2: "\<forall>i<nat d. nat (cdim a) \<le> i \<longrightarrow> rd G0 i = None"
    using len by (simp add: rd_def)
  have c3: "nat (cdim a) < nat d"
    using lt cd by simp
  have c4: "?b ! tid ! nat (cdim a) = None"
    using c1 c2 c3 by simp
  from init c1 c2 c3 c4 have "\<exists>buf'. c_reduction_init a G0 tid buf = Inr buf'
            \<and> (\<forall>i<nat d. buf' ! tid ! i = rd G0 i)
            \<and> (\<forall>i<nat d. nat (cdim a) \<le> i \<longrightarrow> rd G0 i = None)
            \<and> nat (cdim a) < nat d \<and> buf' ! tid ! nat (cdim a) = None"
    by (intro exI [of _ ?b]) simp
  then show ?thesis
    using finalisation_ignores_padding [of a nthread B G] by simp
qed

theorem init_reads_beyond_cdim_witness:
  "rd [10, 20 :: int] 2 = None
   \<and> (\<exists>buf'. c_reduction_init
         \<lparr>access = MIN_acc, cdim = 2, itemsize = 4, is_global_reduction = True, is_mat = False\<rparr>
         [10, 20 :: int] 1 (replicate 32 (replicate 16 None)) = Inr buf' \<and> buf' ! 1 ! 2 = None)"
proof -
  let ?a = "\<lparr>access = MIN_acc, cdim = 2, itemsize = 4, is_global_reduction = True, is_mat = False\<rparr>"
  let ?buf = "replicate 32 (replicate 16 None) :: int option list list"
  have h: "access ?a = MIN_acc \<or> access ?a = MAX_acc"
    "padding ?a = Inr 16" "cdim ?a < 16" "0 \<le> cdim ?a"
    "length [10, 20 :: int] = nat (cdim ?a)"
    "1 < length ?buf" "length (?buf ! 1) = nat 16"
    by (simp_all add: padding_def cache_padding_def)
  show ?thesis
    using init_reads_beyond_cdim [OF h, of 1 "[]" "[]"] by (auto simp: rd_def)
qed

subsection \<open>The plan of a direct loop\<close>

lemma ceil_div_ceiling:
  "ceil_div a b = \<lceil>real_of_int a / real_of_int b\<rceil>"
  using floor_divide_of_int_eq [of "- a" b, where ?'a = real]
  by (simp add: ceil_div_def ceiling_def)

lemma ceil_div_bounds:
  assumes "0 < b"
  shows "(ceil_div a b - 1) * b < a" and "a \<le> ceil_div a b * b"
proof -
  define q where "q = (- a) div b"
  define r where "r = (- a) mod b"
  have e: "b * q + r = - a"
    unfolding q_def r_def by (rule mult_div_mod_eq)
  have r: "0 \<le> r" "r < b"
    using assms by (simp_all add: r_def)
  have c: "ceil_div a b = - q"
    by (simp add: ceil_div_def q_def)
  show "(ceil_div a b - 1) * b < a"
    unfolding c using e r by (simp add: algebra_simps)
  show "a \<le> ceil_div a b * b"
    unfolding c using e r by (simp add: algebra_simps)
qed

lemma ceil_div_pos: "0 < b \<Longrightarrow> 0 < a \<Longrightarrow> 0 < ceil_div a b"
proof -
  assume b: "0 < b" and a: "0 < a"
  have "a \<le> ceil_div a b * b" using b by (rule ceil_div_bounds)
  with a have "0 < ceil_div a b * b" by linarith
  with b show ?thesis by (simp add: zero_less_mult_iff)
qed

lemma upto_append: "i - 1 \<le> j \<Longrightarrow> j \<le> k \<Longrightarrow> [i..k] = [i..j] @ [j + 1..k]" for i j k :: int
proof (cases "i \<le> j")
  case True
  assume "j \<le> k"
  with True show ?thesis by (rule upto_split2)
next
  case False
  assume "i - 1 \<le> j"
  with False have "j = i - 1" by linarith
  then show ?thesis by simp
qed

lemma full_blocks:
  assumes "0 < ps"
  shows "concat (map (\<lambda>b. [off + int b * ps .. off + int b * ps + ps - 1]) [0..<k])
           = [off .. off + int k * ps - 1]"
proof (induction k)
  case 0
  show ?case by simp
next
  case (Suc k)
  have nn: "0 \<le> int k * ps" using assms by simp
  have s: "off + int (Suc k) * ps - 1 = off + int k * ps + ps - 1"
    by (simp add: algebra_simps)
  have "[off .. off + int k * ps + ps - 1]
          = [off .. off + int k * ps - 1] @ [off + int k * ps - 1 + 1 .. off + int k * ps + ps - 1]"
    using assms nn by (intro upto_append) linarith+
  then have "[off .. off + int k * ps + ps - 1]
          = [off .. off + int k * ps - 1] @ [off + int k * ps .. off + int k * ps + ps - 1]"
    by simp
  then show ?case
    unfolding s using Suc by simp
qed

lemma block_size:
  assumes ps: "0 < ps" and b: "b < nat (ceil_div sz ps)"
  shows "min ps (sz - int b * ps) = (if Suc b < nat (ceil_div sz ps) then ps else sz - int b * ps)"
    and "0 < min ps (sz - int b * ps)"
proof -
  let ?n = "ceil_div sz ps"
  have lo: "(?n - 1) * ps < sz" and hi: "sz \<le> ?n * ps"
    using ps by (rule ceil_div_bounds)+
  have bn: "int b \<le> ?n - 1" using b by linarith
  then have "int b * ps \<le> (?n - 1) * ps"
    using ps by (intro mult_right_mono) simp_all
  with lo have pos: "int b * ps < sz" by linarith
  with ps show "0 < min ps (sz - int b * ps)" by simp
  show "min ps (sz - int b * ps) = (if Suc b < nat ?n then ps else sz - int b * ps)"
  proof (cases "Suc b < nat ?n")
    case True
    then have "int b + 1 \<le> ?n - 1" by linarith
    then have "(int b + 1) * ps \<le> (?n - 1) * ps"
      using ps by (intro mult_right_mono) simp_all
    with lo have "int b * ps + ps < sz" by (simp add: algebra_simps)
    with True show ?thesis by simp
  next
    case False
    with b have "?n = int b + 1" by linarith
    then have "?n * ps = int b * ps + ps" by (simp add: algebra_simps)
    with hi have "sz \<le> int b * ps + ps" by linarith
    with False show ?thesis by simp
  qed
qed

lemma blocks_cover:
  assumes ps: "0 < ps" and sz: "0 < sz"
  shows "concat (map (\<lambda>b. [off + int b * ps .. off + int b * ps + min ps (sz - int b * ps) - 1])
                   [0..<nat (ceil_div sz ps)])
           = [off .. off + sz - 1]"
proof -
  let ?n = "ceil_div sz ps"
  have npos: "0 < ?n" using ps sz by (rule ceil_div_pos)
  then obtain k where k: "nat ?n = Suc k" by (cases "nat ?n") auto
  have lo: "(?n - 1) * ps < sz"
    using ps by (rule ceil_div_bounds)
  have kn: "int k = ?n - 1" using k by linarith
  have kps: "int k * ps < sz" using lo kn by simp
  have nn: "0 \<le> int k * ps" using ps by simp
  have full: "map (\<lambda>b. [off + int b * ps .. off + int b * ps + min ps (sz - int b * ps) - 1]) [0..<k]
                = map (\<lambda>b. [off + int b * ps .. off + int b * ps + ps - 1]) [0..<k]"
  proof (rule map_cong [OF refl])
    fix b assume "b \<in> set [0..<k]"
    then have "b < nat ?n" "Suc b < nat ?n" using k by simp_all
    then have "min ps (sz - int b * ps) = ps"
      using block_size(1) [OF ps, of b sz] by simp
    then show "[off + int b * ps .. off + int b * ps + min ps (sz - int b * ps) - 1]
                 = [off + int b * ps .. off + int b * ps + ps - 1]"
      by simp
  qed
  have last: "min ps (sz - int k * ps) = sz - int k * ps"
    using block_size(1) [OF ps, of k sz] k by simp
  have first: "concat (map (\<lambda>b. [off + int b * ps .. off + int b * ps + min ps (sz - int b * ps) - 1])
                  [0..<k])
          = [off .. off + int k * ps - 1]"
    unfolding full by (rule full_blocks [OF ps])
  have "concat (map (\<lambda>b. [off + int b * ps .. off + int b * ps + min ps (sz - int b * ps) - 1])
                  [0..<Suc k])
          = [off .. off + int k * ps - 1] @ [off + int k * ps .. off + sz - 1]"
    using first by (simp add: last)
  also have "\<dots> = [off .. off + int k * ps - 1] @ [off + int k * ps - 1 + 1 .. off + sz - 1]"
    by simp
  also have "\<dots> = [off .. off + sz - 1]"
    using nn kps by (intro upto_append [symmetric]) linarith+
  finally show ?thesis by (simp only: k)
qed

lemma ilog2_nonneg: "0 \<le> ilog2 n"
  by (induction n rule: ilog2.induct) (subst ilog2.simps, simp)

lemma ilog2_bounds:
  "1 \<le> n \<Longrightarrow> 2 ^ nat (ilog2 n) \<le> n \<and> n < 2 * 2 ^ nat (ilog2 n)"
proof (induction n rule: ilog2.induct)
  case (1 n)
  show ?case
  proof (cases "n < 2")
    case True
    with "1.prems" have "n = 1" by simp
    then show ?thesis by (subst ilog2.simps, subst ilog2.simps) simp
  next
    case False
    then have h: "1 \<le> n div 2" by simp
    have e: "ilog2 n = 1 + ilog2 (n div 2)"
      using False by (subst ilog2.simps) simp
    have p: "(2::int) ^ nat (1 + ilog2 (n div 2)) = 2 * 2 ^ nat (ilog2 (n div 2))"
      using ilog2_nonneg [of "n div 2"] by (simp add: nat_add_distrib)
    from "1.IH" [OF False h]
    have ih: "2 ^ nat (ilog2 (n div 2)) \<le> n div 2" "n div 2 < 2 * 2 ^ nat (ilog2 (n div 2))"
      by simp_all
    show ?thesis
      unfolding e p using ih by linarith
  qed
qed

lemma ilog2_less:
  assumes "1 \<le> n" and "n < 2 ^ k"
  shows "nat (ilog2 n) < k"
proof -
  have "(2::int) ^ nat (ilog2 n) \<le> n" using ilog2_bounds [OF assms(1)] by simp
  with assms(2) have "(2::int) ^ nat (ilog2 n) < 2 ^ k" by linarith
  then show ?thesis by simp
qed

lemma rne_bounds:
  assumes "0 < q"
  shows "2 * (rne p q * q) \<le> 2 * p + q" and "2 * p \<le> 2 * (rne p q * q) + q"
proof -
  define k where "k = p div q"
  define r where "r = p mod q"
  have e: "p = k * q + r" by (simp add: k_def r_def)
  have r: "0 \<le> r" "r < q" using assms by (simp_all add: r_def)
  have c: "rne p q = k \<and> 2 * r \<le> q \<or> rne p q = k + 1 \<and> q \<le> 2 * r"
    by (auto simp: rne_def Let_def k_def r_def)
  then show "2 * (rne p q * q) \<le> 2 * p + q" and "2 * p \<le> 2 * (rne p q * q) + q"
    using e r by (auto simp: algebra_simps)
qed

lemma rne_exact: "rne (a * q) 1 = a * q"
  by (simp add: rne_def)

lemma ceil_div_unique:
  assumes b: "0 < b" and lo: "(c - 1) * b < a" and hi: "a \<le> c * b"
  shows "ceil_div a b = c"
proof -
  let ?c = "ceil_div a b"
  have lo': "(?c - 1) * b < a" and hi': "a \<le> ?c * b"
    using b by (rule ceil_div_bounds)+
  from lo hi' have "(c - 1) * b < ?c * b" by linarith
  with b have 1: "c - 1 < ?c" by (simp add: mult_less_cancel_right)
  from lo' hi have "(?c - 1) * b < c * b" by linarith
  with b have 2: "?c - 1 < c" by (simp add: mult_less_cancel_right)
  from 1 2 show ?thesis by linarith
qed

lemma int32_id: "- (2 ^ 31) \<le> x \<Longrightarrow> x < 2 ^ 31 \<Longrightarrow> int32 x = x"
  by (simp add: int32_def)

lemma setitem_int32_id: "- (2 ^ 31) \<le> x \<Longrightarrow> x < 2 ^ 31 \<Longrightarrow> setitem_int32 x = Inr x"
  by (simp add: setitem_int32_def int32_id)

lemma np_array_int32_id:
  "\<forall>x\<in>set xs. - (2 ^ 31) \<le> x \<and> x < 2 ^ 31 \<Longrightarrow> np_array_int32 xs = Inr xs"
  by (induction xs) (simp_all add: setitem_int32_id)

lemma expo_props:
  assumes p: "0 < p" "p < 2 ^ 31" and q: "0 < q" "q < 2 ^ 31"
  shows "- 31 \<le> expo p q" and "expo p q \<le> 30"
    and "q * 2 ^ 52 \<le> p * 2 ^ nat (52 - expo p q)"
proof -
  obtain a where a: "ilog2 p = int a"
    using ilog2_nonneg [of p] by (metis nonneg_int_cases)
  obtain b where b: "ilog2 q = int b"
    using ilog2_nonneg [of q] by (metis nonneg_int_cases)
  have a30: "a < 31" using ilog2_less [of p 31] p a by simp
  have b30: "b < 31" using ilog2_less [of q 31] q b by simp
  have pa: "2 ^ a \<le> p" using ilog2_bounds [of p] p a by simp
  have qb: "q < 2 * 2 ^ b" using ilog2_bounds [of q] q b by simp
  let ?d = "int a - int b"
  let ?c = "q * 2 ^ nat ?d \<le> p * 2 ^ nat (- ?d)"
  have e: "expo p q = (if ?c then ?d else ?d - 1)"
    by (simp add: expo_def a b Let_def)
  show "- 31 \<le> expo p q" and "expo p q \<le> 30"
    unfolding e using a30 b30 by auto
  show "q * 2 ^ 52 \<le> p * 2 ^ nat (52 - expo p q)"
  proof (cases ?c)
    case True
    then have k: "nat (52 - expo p q) = 52 + b - a"
      unfolding e using a30 by simp
    show ?thesis
    proof (cases "b \<le> a")
      case ba: True
      then have "nat ?d = a - b" "nat (- ?d) = 0" by simp_all
      with True have c: "q * 2 ^ (a - b) \<le> p" by simp
      have "(2::int) ^ 52 = 2 ^ (a - b) * 2 ^ (52 + b - a)"
        using ba a30 by (simp add: power_add [symmetric])
      then have "q * 2 ^ 52 = q * 2 ^ (a - b) * 2 ^ (52 + b - a)"
        by simp
      also have "\<dots> \<le> p * 2 ^ (52 + b - a)"
        using c by (intro mult_right_mono) simp_all
      finally show ?thesis unfolding k .
    next
      case ab: False
      then have "nat ?d = 0" "nat (- ?d) = b - a" by simp_all
      with True have c: "q \<le> p * 2 ^ (b - a)" by simp
      have "52 + b - a = (b - a) + 52" using ab by simp
      then have eq: "(2::int) ^ (52 + b - a) = 2 ^ (b - a) * 2 ^ 52"
        by (simp only: power_add)
      have "q * 2 ^ 52 \<le> p * 2 ^ (b - a) * 2 ^ 52"
        using c by (intro mult_right_mono) simp_all
      also have "\<dots> = p * (2 ^ (b - a) * 2 ^ 52)"
        by (simp only: mult.assoc)
      also have "\<dots> = p * 2 ^ (52 + b - a)"
        by (simp only: eq)
      finally show ?thesis unfolding k .
    qed
  next
    case False
    then have k: "nat (52 - expo p q) = 53 + b - a"
      unfolding e using a30 by simp
    have "(2::int) ^ (53 + b) = 2 ^ a * 2 ^ (53 + b - a)"
      using a30 by (simp add: power_add [symmetric])
    also have "\<dots> \<le> p * 2 ^ (53 + b - a)"
      using pa by (intro mult_right_mono) simp_all
    finally have lo: "(2::int) ^ (53 + b) \<le> p * 2 ^ (53 + b - a)" .
    have "q * 2 ^ 52 \<le> 2 * 2 ^ b * 2 ^ 52"
      using qb by (intro mult_right_mono) simp_all
    also have "\<dots> = 2 ^ (53 + b)"
      by (simp add: power_add)
    finally show ?thesis
      unfolding k using lo by linarith
  qed
qed

lemma round53_ceiling:
  assumes p: "0 < p" "p < 2 ^ 31" and q: "0 < q" "q < 2 ^ 31"
  shows "ceil_double (round53 p q) = ceil_div p q"
    and "snd (round53 p q) < 0"
proof -
  define e where "e = expo p q"
  define k where "k = nat (52 - e)"
  define K :: int where "K = 2 ^ k"
  define n where "n = rne (p * K) q"
  define c where "c = ceil_div p q"
  have eb: "- 31 \<le> e" "e \<le> 30"
    unfolding e_def using p q by (rule expo_props)+
  have F1: "q * 2 ^ 52 \<le> p * K"
    unfolding K_def k_def e_def using p q by (rule expo_props)
  have s: "max e (- 1022) - 52 = e - 52" "nat (52 - e) = k" "nat (e - 52) = 0"
    using eb by (simp_all add: k_def)
  have r: "round53 p q = (n, e - 52)"
    by (simp add: round53_def Let_def e_def [symmetric] s n_def K_def)
  show "snd (round53 p q) < 0"
    unfolding r using eb by simp
  have Kpos: "0 < K" by (simp add: K_def)
  have "p * K < 2 ^ 31 * K"
    using p Kpos by (intro mult_strict_right_mono)
  with F1 have "q * 2 ^ 52 < 2 ^ 31 * K" by linarith
  then have "q * 2 ^ 21 * 2 ^ 31 < K * 2 ^ 31" by (simp add: algebra_simps)
  then have "q * 2 ^ 21 < K" by (simp only: mult_less_cancel_right_pos zero_less_numeral zero_less_power)
  moreover have "q * 1 \<le> q * 2 ^ 21" using q by (intro mult_left_mono) simp_all
  ultimately have qK: "q < K" by simp
  have rb: "2 * (n * q) \<le> 2 * (p * K) + q" "2 * (p * K) \<le> 2 * (n * q) + q"
    unfolding n_def using q(1) by (rule rne_bounds)+
  have cb: "(c - 1) * q < p" "p \<le> c * q"
    unfolding c_def using q(1) by (rule ceil_div_bounds)+
  have upper: "n \<le> c * K"
  proof (rule ccontr)
    assume "\<not> n \<le> c * K"
    then have "c * K + 1 \<le> n" by simp
    then have "(c * K + 1) * q \<le> n * q"
      using q(1) by (intro mult_right_mono) simp_all
    moreover have "p * K \<le> c * q * K"
      using cb(2) Kpos by (intro mult_right_mono) simp_all
    ultimately show False
      using rb(1) q(1) by (simp add: algebra_simps)
  qed
  have lower: "(c - 1) * K < n"
  proof (rule ccontr)
    assume "\<not> (c - 1) * K < n"
    then have "n \<le> (c - 1) * K" by simp
    then have "n * q \<le> (c - 1) * K * q"
      using q(1) by (intro mult_right_mono) simp_all
    moreover have "(c - 1) * q + 1 \<le> p" using cb(1) by simp
    then have "((c - 1) * q + 1) * K \<le> p * K"
      using Kpos by (intro mult_right_mono) simp_all
    ultimately show False
      using rb(2) qK q(1) Kpos by (simp add: algebra_simps)
  qed
  have "ceil_div n K = c"
    using Kpos lower upper by (rule ceil_div_unique)
  moreover have "ceil_double (n, e - 52) = ceil_div n K"
    using eb by (simp add: ceil_double_def ceil_div_def K_def k_def)
  ultimately show "ceil_double (round53 p q) = ceil_div p q"
    unfolding r c_def by simp
qed

lemma float_of_int_id:
  assumes a: "0 < a" "a < 2 ^ 31"
  shows "float_of_int a = Inr a"
proof -
  obtain l where l: "ilog2 a = int l"
    using ilog2_nonneg [of a] by (metis nonneg_int_cases)
  have l30: "l < 31" using ilog2_less [of a 31] a l by simp
  have la: "2 ^ l \<le> a" using ilog2_bounds [of a] a l by simp
  have one: "ilog2 1 = 0" by (subst ilog2.simps) simp
  have e: "expo a 1 = int l"
    using la by (simp add: expo_def l one Let_def)
  have s: "max (int l) (- 1022) - 52 = int l - 52" "nat (52 - int l) = 52 - l"
    "nat (int l - 52) = 0"
    using l30 by simp_all
  have r: "round53 a 1 = (a * 2 ^ (52 - l), int l - 52)"
    by (simp add: round53_def e Let_def s rne_def)
  have small: "\<not> (2::int) ^ 1024 \<le> a"
  proof -
    have "(2::int) ^ 31 \<le> 2 ^ 1024" by (rule power_increasing) simp_all
    with a show ?thesis by linarith
  qed
  have v: "a * 2 ^ (52 - l) div 2 ^ (52 - l) = a" by simp
  have "float_of_int a
          = (let v = a * 2 ^ (52 - l) div 2 ^ (52 - l)
             in if 2 ^ 1024 \<le> v then Inl OverflowError else Inr (sgn a * v))"
    using a l30 by (simp add: float_of_int_def r s del: power_numeral)
  also have "\<dots> = Inr a"
    unfolding Let_def v using small a by simp
  finally show ?thesis .
qed

lemma ceil_div_float_exact:
  assumes a: "0 < a" "a < 2 ^ 31" and b: "0 < b" "b < 2 ^ 31"
  shows "ceil_div_float a b = Inr (ceil_div a b)"
proof -
  have d: "float_div a b = round53 a b"
    using a b by (simp add: float_div_def split: prod.splits)
  show ?thesis
    using a b by (simp add: ceil_div_float_def float_of_int_id d round53_ceiling)
qed

lemma true_div_exact:
  assumes a: "0 < a" "a < 2 ^ 31" and b: "0 < b" "b < 2 ^ 31"
  shows "\<exists>x. true_div a b = Inr x \<and> ceil_double x = ceil_div a b"
proof -
  have d: "float_div a b = round53 a b"
    using a b by (simp add: float_div_def split: prod.splits)
  have neg: "snd (round53 a b) < 0"
    using a b by (rule round53_ceiling)
  obtain n s where ns: "round53 a b = (n, s)" by fastforce
  with neg have "s < 0" by simp
  then have "true_div a b = Inr (round53 a b)"
    using b by (simp add: true_div_def d ns)
  then show ?thesis
    using round53_ceiling(1) [OF a b] by simp
qed

lemma ceil_div_le:
  assumes "0 < b" and "0 < a"
  shows "ceil_div a b \<le> a"
proof -
  have lo: "(ceil_div a b - 1) * b < a" using assms(1) by (rule ceil_div_bounds)
  have "0 < ceil_div a b" using assms by (rule ceil_div_pos)
  then have "(ceil_div a b - 1) * 1 \<le> (ceil_div a b - 1) * b"
    using assms(1) by (intro mult_left_mono) simp_all
  with lo show ?thesis by simp
qed

lemma below_stop:
  assumes b: "0 < b" and i: "int i < ceil_div a b"
  shows "int i * b < a"
proof -
  have lo: "(ceil_div a b - 1) * b < a" using b by (rule ceil_div_bounds)
  from i have "int i \<le> ceil_div a b - 1" by simp
  then have "int i * b \<le> (ceil_div a b - 1) * b"
    using b by (intro mult_right_mono) simp_all
  with lo show ?thesis by linarith
qed

lemma np_arange_exact:
  assumes step: "0 < step" "step < 2 ^ 31"
    and len: "start < stop" "stop - start < 2 ^ 31"
    and lo: "- (2 ^ 31) \<le> start" and hi: "stop \<le> 2 ^ 31"
  shows "np_arange start stop step
           = Inr (map (\<lambda>i. start + int i * step) [0..<nat (ceil_div (stop - start) step)])"
proof -
  let ?L = "ceil_div (stop - start) step"
  let ?g = "\<lambda>i. start + int i * step"
  from len have d: "0 < stop - start" by simp
  obtain x where x: "true_div (stop - start) step = Inr x" "ceil_double x = ?L"
    using true_div_exact [OF d len(2) step] by blast
  have Lpos: "0 < ?L" using step(1) d by (rule ceil_div_pos)
  have Lle: "?L \<le> stop - start" using step(1) d by (rule ceil_div_le)
  have L63: "\<not> 2 ^ 63 \<le> ?L"
  proof -
    have "(2::int) ^ 31 \<le> 2 ^ 63" by (rule power_increasing) simp_all
    with Lle len(2) show ?thesis by linarith
  qed
  have inr: "- (2 ^ 31) \<le> ?g i \<and> ?g i < 2 ^ 31" if "int i < ?L" for i
  proof -
    have "int i * step < stop - start" using step(1) that by (rule below_stop)
    moreover have "0 \<le> int i * step" using step(1) by simp
    ultimately show ?thesis using lo hi by linarith
  qed
  have s0: "setitem_int32 start = Inr start"
    using inr [of 0] Lpos by (intro setitem_int32_id) simp_all
  show ?thesis
  proof (cases "?L = 1")
    case True
    then show ?thesis
      by (simp add: np_arange_def x Let_def s0)
  next
    case False
    with Lpos have L2: "2 \<le> ?L" by simp
    have s1: "setitem_int32 (start + step) = Inr (start + step)"
      using inr [of 1] L2 by (intro setitem_int32_id) simp_all
    have delta: "int32 step = step"
      using step by (simp add: int32_id)
    have fill: "map (\<lambda>i. int32 (start + int i * int32 step)) [2..<nat ?L]
                  = map ?g [2..<nat ?L]"
      unfolding delta
    proof (rule map_cong [OF refl])
      fix i assume "i \<in> set [2..<nat ?L]"
      then have "i < nat ?L" by simp
      then have "int i < ?L" by linarith
      from inr [OF this] show "int32 (start + int i * step) = start + int i * step"
        by (intro int32_id) simp_all
    qed
    have n2: "2 \<le> nat ?L" using L2 by linarith
    have "[0..<nat ?L] = 0 # [Suc 0..<nat ?L]"
      using n2 by (intro upt_conv_Cons) simp
    moreover have "[Suc 0..<nat ?L] = Suc 0 # [Suc (Suc 0)..<nat ?L]"
      using n2 by (intro upt_conv_Cons) simp
    ultimately have "[0..<nat ?L] = 0 # 1 # [2..<nat ?L]"
      by (simp add: numeral_2_eq_2)
    then have "map ?g [0..<nat ?L] = [start, start + step] @ map ?g [2..<nat ?L]"
      by simp
    then show ?thesis
      using False Lpos L63 by (simp add: np_arange_def x Let_def s0 s1 fill)
  qed
qed

lemma FakePlan_in_range:
  assumes sz: "0 < part_size p" and sz31: "part_size p < 2 ^ 31"
    and ps: "0 < ps" and ps31: "ps < 2 ^ 31"
    and lo: "- (2 ^ 31) \<le> part_offset p" and hi: "part_offset p + part_size p \<le> 2 ^ 31"
  shows "FakePlan p ps
           = Inr \<lparr>nblocks = ceil_div (part_size p) ps, ncolors = 1,
                  ncolblk = [ceil_div (part_size p) ps],
                  blkmap = map int [0..<nat (ceil_div (part_size p) ps)],
                  nelems = map (\<lambda>i. min ps (part_size p - int i * ps))
                             [0..<nat (ceil_div (part_size p) ps)],
                  offset = map (\<lambda>i. part_offset p + int i * ps)
                             [0..<nat (ceil_div (part_size p) ps)]\<rparr>"
proof -
  let ?n = "ceil_div (part_size p) ps"
  have n: "ceil_div_float (part_size p) ps = Inr ?n"
    using sz sz31 ps ps31 by (rule ceil_div_float_exact)
  have npos: "0 < ?n" using ps sz by (rule ceil_div_pos)
  have nle: "?n \<le> part_size p" using ps sz by (rule ceil_div_le)
  have n31: "?n < 2 ^ 31" using nle sz31 by linarith
  have ncb: "np_array_int32 [?n] = Inr [?n]"
    using npos n31 by (intro np_array_int32_id) simp
  have "np_arange 0 ?n 1 = Inr (map (\<lambda>i. 0 + int i * 1) [0..<nat (ceil_div (?n - 0) 1)])"
    using npos n31 by (intro np_arange_exact) simp_all
  then have bm: "np_arange 0 ?n 1 = Inr (map int [0..<nat ?n])"
    by (simp add: ceil_div_def)
  have ne: "np_array_int32 (map (\<lambda>i. min ps (part_size p - int i * ps)) [0..<nat ?n])
              = Inr (map (\<lambda>i. min ps (part_size p - int i * ps)) [0..<nat ?n])"
  proof (rule np_array_int32_id, rule ballI)
    fix x assume "x \<in> set (map (\<lambda>i. min ps (part_size p - int i * ps)) [0..<nat ?n])"
    then obtain i where i: "i < nat ?n" and x: "x = min ps (part_size p - int i * ps)"
      by auto
    have "0 < x" unfolding x using ps i by (rule block_size(2))
    moreover have "0 \<le> int i * ps" using ps by simp
    then have "x \<le> part_size p" unfolding x by linarith
    ultimately show "- (2 ^ 31) \<le> x \<and> x < 2 ^ 31" using sz31 by simp
  qed
  have "np_arange (part_offset p) (part_offset p + part_size p) ps
          = Inr (map (\<lambda>i. part_offset p + int i * ps)
                   [0..<nat (ceil_div (part_offset p + part_size p - part_offset p) ps)])"
    using ps ps31 sz sz31 lo hi by (intro np_arange_exact) simp_all
  then have off: "np_arange (part_offset p) (part_offset p + part_size p) ps
          = Inr (map (\<lambda>i. part_offset p + int i * ps) [0..<nat ?n])"
    by simp
  show ?thesis
    by (simp only: FakePlan_def n ncb bm ne off sum.case)
qed

text \<open>
  C5, as stated: for every part of positive size and every positive partition size the
  plan of a direct loop covers the part. The arrays of the plan are \<^verbatim>\<open>np.int32\<close>: for
  the part of offset 2147483642 and size 10 and the partition size 4, the offset of the
  third block is stored as \<open>- 2147483646\<close> and not as \<open>part.offset + 8\<close>, and the
  ranges of the blocks are not the range of the part.
\<close>

theorem FakePlan_wraps_counterexample:
  "get_plan (\<lambda>p n. Inl IndexError) \<lparr>args = [], is_indirect = False\<rparr>
     \<lparr>part_offset = 2147483642, part_size = 10\<rparr> 4
     = Inr \<lparr>nblocks = 3, ncolors = 1, ncolblk = [3], blkmap = [0, 1, 2],
            nelems = [4, 4, 2], offset = [2147483642, 2147483646, - 2147483646]\<rparr>
   \<and> [2147483642, 2147483646, - 2147483646] ! 2 \<noteq> (2147483642 :: int) + 2 * 4
   \<and> concat (map (\<lambda>bid. [[2147483642, 2147483646, - 2147483646] ! nat bid
                            .. [2147483642, 2147483646, - 2147483646] ! nat bid
                               + [4, 4, 2] ! nat bid - 1])
               [0, 1, 2])
       \<noteq> [2147483642 .. 2147483642 + 10 - 1]"
proof -
  have fp: "FakePlan \<lparr>part_offset = 2147483642, part_size = 10\<rparr> 4
     = Inr \<lparr>nblocks = 3, ncolors = 1, ncolblk = [3], blkmap = [0, 1, 2],
            nelems = [4, 4, 2], offset = [2147483642, 2147483646, - 2147483646]\<rparr>"
    by code_simp
  have "length (concat (map (\<lambda>bid. [[2147483642, 2147483646, - 2147483646] ! nat bid
                            .. [2147483642, 2147483646, - 2147483646] ! nat bid
                               + [4, 4, 2] ! nat bid - 1])
               [0, 1, 2 :: int])) = 10"
    by simp
  moreover have "- 2147483646 \<in> set (concat (map (\<lambda>bid. [[2147483642, 2147483646, - 2147483646] ! nat bid
                            .. [2147483642, 2147483646, - 2147483646] ! nat bid
                               + [4, 4, 2] ! nat bid - 1])
               [0, 1, 2 :: int]))"
    by simp
  moreover have "- 2147483646 \<notin> set [2147483642 .. 2147483642 + 10 - 1 :: int]"
    by simp
  ultimately show ?thesis
    by (auto simp: get_plan_def fp)
qed

text \<open>
  C5, amended: for a part with \<open>0 < size < 2^31\<close>, \<open>- 2^31 \<le> offset\<close> and
  \<open>offset + size \<le> 2^31\<close>, a partition size with \<open>0 < partition_size < 2^31\<close> and a
  loop with no indirect argument, \<^verbatim>\<open>_get_plan\<close> returns the plan of one colour with
  \<open>\<lceil>size / partition_size\<rceil>\<close> blocks listed in order; block \<open>b\<close> starts at
  \<open>part.offset + b * partition_size\<close> and has \<open>partition_size\<close> iterations, the last
  block having the remainder; the ranges of the blocks do not overlap, and put one
  after the other in block order they are the range of the part, each iteration once.
\<close>

theorem FakePlan_cover_in_range:
  assumes sz: "0 < part_size p" and sz31: "part_size p < 2 ^ 31"
    and ps: "0 < ps" and ps31: "ps < 2 ^ 31"
    and lo: "- (2 ^ 31) \<le> part_offset p" and hi: "part_offset p + part_size p \<le> 2 ^ 31"
    and direct: "\<not> is_indirect pl"
  shows "\<exists>pn. get_plan Plan pl p ps = Inr pn
           \<and> ncolors pn = 1
           \<and> nblocks pn = \<lceil>real_of_int (part_size p) / real_of_int ps\<rceil>
           \<and> 0 < nblocks pn
           \<and> ncolblk pn = [nblocks pn]
           \<and> blkmap pn = map int [0..<nat (nblocks pn)]
           \<and> length (offset pn) = nat (nblocks pn)
           \<and> length (nelems pn) = nat (nblocks pn)
           \<and> (\<forall>b<nat (nblocks pn).
                 offset pn ! b = part_offset p + int b * ps
                 \<and> nelems pn ! b
                     = (if Suc b < nat (nblocks pn) then ps else part_size p - int b * ps)
                 \<and> 0 < nelems pn ! b \<and> nelems pn ! b \<le> ps)
           \<and> (\<forall>b<nat (nblocks pn). \<forall>b'<nat (nblocks pn).
                 b < b' \<longrightarrow> offset pn ! b + nelems pn ! b \<le> offset pn ! b')
           \<and> concat (map (\<lambda>bid. [offset pn ! nat bid
                                    .. offset pn ! nat bid + nelems pn ! nat bid - 1])
                        (blkmap pn))
               = [part_offset p .. part_offset p + part_size p - 1]"
proof -
  let ?n = "ceil_div (part_size p) ps"
  let ?pn = "\<lparr>nblocks = ?n, ncolors = 1, ncolblk = [?n],
              blkmap = map int [0..<nat ?n],
              nelems = map (\<lambda>i. min ps (part_size p - int i * ps)) [0..<nat ?n],
              offset = map (\<lambda>i. part_offset p + int i * ps) [0..<nat ?n]\<rparr>"
  have plan: "get_plan Plan pl p ps = Inr ?pn"
    using direct FakePlan_in_range [OF sz sz31 ps ps31 lo hi] by (simp add: get_plan_def)
  have c1: "ncolors ?pn = 1" by simp
  have c2: "nblocks ?pn = \<lceil>real_of_int (part_size p) / real_of_int ps\<rceil>"
    by (simp add: ceil_div_ceiling)
  have c3: "0 < nblocks ?pn"
    using ceil_div_pos [OF ps sz] by simp
  have c4: "ncolblk ?pn = [nblocks ?pn]" by simp
  have c5: "blkmap ?pn = map int [0..<nat (nblocks ?pn)]" by simp
  have c6: "length (offset ?pn) = nat (nblocks ?pn)" by simp
  have c7: "length (nelems ?pn) = nat (nblocks ?pn)" by simp
  have blk: "offset ?pn ! b = part_offset p + int b * ps
           \<and> nelems ?pn ! b = (if Suc b < nat (nblocks ?pn) then ps else part_size p - int b * ps)
           \<and> 0 < nelems ?pn ! b \<and> nelems ?pn ! b \<le> ps"
    if "b < nat (nblocks ?pn)" for b
    using that block_size [OF ps, of b "part_size p"] by simp
  have c8: "\<forall>b<nat (nblocks ?pn).
              offset ?pn ! b = part_offset p + int b * ps
              \<and> nelems ?pn ! b = (if Suc b < nat (nblocks ?pn) then ps else part_size p - int b * ps)
              \<and> 0 < nelems ?pn ! b \<and> nelems ?pn ! b \<le> ps"
    using blk by blast
  have c9: "\<forall>b<nat (nblocks ?pn). \<forall>b'<nat (nblocks ?pn).
              b < b' \<longrightarrow> offset ?pn ! b + nelems ?pn ! b \<le> offset ?pn ! b'"
  proof (intro allI impI)
    fix b b' assume b: "b < nat (nblocks ?pn)" and b': "b' < nat (nblocks ?pn)" and lt: "b < b'"
    have "int b + 1 \<le> int b'" using lt by simp
    then have "(int b + 1) * ps \<le> int b' * ps"
      using ps by (intro mult_right_mono) simp_all
    then have "int b * ps + ps \<le> int b' * ps" by (simp add: algebra_simps)
    moreover have "nelems ?pn ! b \<le> ps" using blk [OF b] by blast
    moreover have "offset ?pn ! b = part_offset p + int b * ps" using blk [OF b] by blast
    moreover have "offset ?pn ! b' = part_offset p + int b' * ps" using blk [OF b'] by blast
    ultimately show "offset ?pn ! b + nelems ?pn ! b \<le> offset ?pn ! b'" by linarith
  qed
  have "concat (map (\<lambda>bid. [offset ?pn ! nat bid .. offset ?pn ! nat bid + nelems ?pn ! nat bid - 1])
                  (blkmap ?pn))
          = concat (map (\<lambda>b. [part_offset p + int b * ps
                               .. part_offset p + int b * ps + min ps (part_size p - int b * ps) - 1])
                      [0..<nat ?n])"
    by (auto intro!: arg_cong [where f = concat])
  also have "\<dots> = [part_offset p .. part_offset p + part_size p - 1]"
    using ps sz by (rule blocks_cover)
  finally have c10: "concat (map (\<lambda>bid. [offset ?pn ! nat bid
                                           .. offset ?pn ! nat bid + nelems ?pn ! nat bid - 1])
                               (blkmap ?pn))
                      = [part_offset p .. part_offset p + part_size p - 1]" .
  show ?thesis
    by (rule exI [of _ ?pn], intro conjI) (fact plan c1 c2 c3 c4 c5 c6 c7 c8 c9 c10)+
qed

theorem FakePlan_cover_in_range_witness:
  "get_plan (\<lambda>p n. Inl IndexError) \<lparr>args = [], is_indirect = False\<rparr>
     \<lparr>part_offset = 5, part_size = 10\<rparr> 4
     = Inr \<lparr>nblocks = 3, ncolors = 1, ncolblk = [3], blkmap = [0, 1, 2],
            nelems = [4, 4, 2], offset = [5, 9, 13]\<rparr>
   \<and> concat (map (\<lambda>bid. [[5, 9, 13] ! nat bid .. [5, 9, 13] ! nat bid + [4, 4, 2] ! nat bid - 1])
               [0, 1, 2])
       = [5 .. 5 + 10 - 1]"
proof -
  have h: "0 < part_size \<lparr>part_offset = 5, part_size = 10\<rparr>"
    "part_size \<lparr>part_offset = 5, part_size = 10\<rparr> < 2 ^ 31"
    "(0::int) < 4" "(4::int) < 2 ^ 31"
    "- (2 ^ 31) \<le> part_offset \<lparr>part_offset = 5, part_size = 10\<rparr>"
    "part_offset \<lparr>part_offset = 5, part_size = 10\<rparr>
       + part_size \<lparr>part_offset = 5, part_size = 10\<rparr> \<le> 2 ^ 31"
    "\<not> is_indirect \<lparr>args = [], is_indirect = False\<rparr>"
    by simp_all
  have fp: "FakePlan \<lparr>part_offset = 5, part_size = 10\<rparr> 4
     = Inr \<lparr>nblocks = 3, ncolors = 1, ncolblk = [3], blkmap = [0, 1, 2],
            nelems = [4, 4, 2], offset = [5, 9, 13]\<rparr>"
    by code_simp
  have plan: "get_plan (\<lambda>p n. Inl IndexError) \<lparr>args = [], is_indirect = False\<rparr>
     \<lparr>part_offset = 5, part_size = 10\<rparr> 4
     = Inr \<lparr>nblocks = 3, ncolors = 1, ncolblk = [3], blkmap = [0, 1, 2],
            nelems = [4, 4, 2], offset = [5, 9, 13]\<rparr>"
    by (simp add: get_plan_def fp)
  from FakePlan_cover_in_range [OF h, of "\<lambda>p n. Inl IndexError"]
  obtain pn where
    pn: "get_plan (\<lambda>p n. Inl IndexError) \<lparr>args = [], is_indirect = False\<rparr>
           \<lparr>part_offset = 5, part_size = 10\<rparr> 4 = Inr pn"
    and cover: "concat (map (\<lambda>bid. [offset pn ! nat bid
                                      .. offset pn ! nat bid + nelems pn ! nat bid - 1])
                          (blkmap pn))
                 = [part_offset \<lparr>part_offset = 5, part_size = 10\<rparr>
                    .. part_offset \<lparr>part_offset = 5, part_size = 10\<rparr>
                       + part_size \<lparr>part_offset = 5, part_size = 10\<rparr> - 1]"
    by blast
  from pn plan have "pn = \<lparr>nblocks = 3, ncolors = 1, ncolblk = [3], blkmap = [0, 1, 2],
            nelems = [4, 4, 2], offset = [5, 9, 13]\<rparr>"
    by simp
  with cover plan show ?thesis by simp
qed

subsection \<open>The dispatch loop\<close>

lemma block_loop_result:
  assumes "\<forall>b\<in>set bs. 0 \<le> b \<and> b < int (length bm) \<and> 0 \<le> bm ! nat b
             \<and> bm ! nat b < int (length ne) \<and> bm ! nat b < int (length off)"
  shows "\<exists>s'. block_loop kern bm off ne bs s = Inr s'
           \<and> trace s' = trace s @ map (\<lambda>b. Block (bm ! nat b)) bs
           \<and> kernel_calls s' = kernel_calls s
               @ concat (map (\<lambda>b. [off ! nat (bm ! nat b)
                                     .. off ! nat (bm ! nat b) + ne ! nat (bm ! nat b) - 1]) bs)
           \<and> jit s' = jit s \<and> plans s' = plans s"
  using assms
proof (induction bs arbitrary: s)
  case Nil
  show ?case by simp
next
  case (Cons b bs)
  let ?bid = "bm ! nat b"
  let ?its = "[off ! nat ?bid .. off ! nat ?bid + ne ! nat ?bid - 1]"
  let ?s1 = "s\<lparr>trace := trace s @ [Block ?bid],
               kernel_calls := kernel_calls s @ ?its,
               data := fold kern ?its (data s)\<rparr>"
  have reads: "rd_int bm b = Some ?bid" "rd_int ne ?bid = Some (ne ! nat ?bid)"
    "rd_int off ?bid = Some (off ! nat ?bid)"
    using Cons.prems by (simp_all add: rd_int_def rd_def nat_less_iff)
  have step: "block_loop kern bm off ne (b # bs) s = block_loop kern bm off ne bs ?s1"
    by (simp add: reads)
  from Cons.prems have "\<forall>b\<in>set bs. 0 \<le> b \<and> b < int (length bm) \<and> 0 \<le> bm ! nat b
             \<and> bm ! nat b < int (length ne) \<and> bm ! nat b < int (length off)"
    by simp
  from Cons.IH [OF this, of ?s1] obtain s' where
    "block_loop kern bm off ne bs ?s1 = Inr s'"
    "trace s' = trace ?s1 @ map (\<lambda>b. Block (bm ! nat b)) bs"
    "kernel_calls s' = kernel_calls ?s1
               @ concat (map (\<lambda>b. [off ! nat (bm ! nat b)
                                     .. off ! nat (bm ! nat b) + ne ! nat (bm ! nat b) - 1]) bs)"
    "jit s' = jit ?s1" "plans s' = plans ?s1"
    by blast
  then show ?case
    unfolding step by simp
qed

lemma wrapper_result:
  assumes "\<forall>b\<in>set [boffset..boffset + nb - 1]. 0 \<le> b \<and> b < int (length bm) \<and> 0 \<le> bm ! nat b
             \<and> bm ! nat b < int (length ne) \<and> bm ! nat b < int (length off)"
  shows "\<exists>s'. wrapper omp kern boffset nb bm off ne s = Inr s'
           \<and> trace s' = trace s @ [Call boffset nb, Parallel omp]
               @ map (\<lambda>b. Block (bm ! nat b)) [boffset..boffset + nb - 1] @ [Return]
           \<and> kernel_calls s' = kernel_calls s
               @ concat (map (\<lambda>b. [off ! nat (bm ! nat b)
                                     .. off ! nat (bm ! nat b) + ne ! nat (bm ! nat b) - 1])
                           [boffset..boffset + nb - 1])
           \<and> jit s' = jit s \<and> plans s' = plans s"
proof -
  let ?s0 = "s\<lparr>trace := trace s @ [Call boffset nb, Parallel omp]\<rparr>"
  from block_loop_result [OF assms, of kern ?s0] obtain s1 where
    s1: "block_loop kern bm off ne [boffset..boffset + nb - 1] ?s0 = Inr s1"
    "trace s1 = trace ?s0 @ map (\<lambda>b. Block (bm ! nat b)) [boffset..boffset + nb - 1]"
    "kernel_calls s1 = kernel_calls ?s0
               @ concat (map (\<lambda>b. [off ! nat (bm ! nat b)
                                     .. off ! nat (bm ! nat b) + ne ! nat (bm ! nat b) - 1])
                           [boffset..boffset + nb - 1])"
    "jit s1 = jit ?s0" "plans s1 = plans ?s0"
    by blast
  have "wrapper omp kern boffset nb bm off ne s = Inr (s1\<lparr>trace := trace s1 @ [Return]\<rparr>)"
    by (simp add: wrapper_def s1(1))
  with s1 show ?thesis by simp
qed

lemma prefix_sum_Suc:
  "c < length xs \<Longrightarrow> sum_list (take (Suc c) xs) = sum_list (take c xs) + xs ! c" for xs :: "int list"
  by (simp add: take_Suc_conv_app_nth)

lemma prefix_sum_mono:
  fixes xs :: "int list"
  assumes "n \<le> length xs" and "\<forall>i<n. 0 \<le> xs ! i" and "k \<le> n"
  shows "sum_list (take k xs) \<le> sum_list (take n xs)"
  using assms(3,1,2)
proof (induction rule: dec_induct)
  case base
  show ?case by simp
next
  case (step m)
  have e: "sum_list (take (Suc m) xs) = sum_list (take m xs) + xs ! m"
    using step.prems by (intro prefix_sum_Suc) simp
  have a: "0 \<le> xs ! m"
    using step.prems by simp
  have "sum_list (take k xs) \<le> sum_list (take m xs)"
    using step.prems by (intro step.IH) simp_all
  with e a show ?case by linarith
qed

lemma color_loop_result:
  assumes len: "n \<le> length (ncolblk pn)"
    and nonneg: "\<forall>c<n. 0 \<le> ncolblk pn ! c"
    and fit: "sum_list (take n (ncolblk pn)) \<le> int (length (blkmap pn))"
    and ids: "\<forall>bid\<in>set (blkmap pn). 0 \<le> bid \<and> bid < int (length (nelems pn))
                \<and> bid < int (length (offset pn))"
    and k: "k \<le> n"
  shows "\<exists>s'. color_loop omp kern pn [k..<n] (sum_list (take k (ncolblk pn))) s = Inr s'
           \<and> trace s' = trace s
               @ concat (map (\<lambda>c. [Call (sum_list (take c (ncolblk pn))) (ncolblk pn ! c),
                                    Parallel omp]
                                   @ map (\<lambda>b. Block (blkmap pn ! nat b))
                                       [sum_list (take c (ncolblk pn))
                                        .. sum_list (take c (ncolblk pn)) + ncolblk pn ! c - 1]
                                   @ [Return]) [k..<n])
           \<and> plans s' = plans s"
  using k
proof (induction "n - k" arbitrary: k s)
  case 0
  then show ?case by simp
next
  case (Suc m)
  let ?nc = "ncolblk pn"
  let ?bo = "sum_list (take k ?nc)"
  let ?nb = "?nc ! k"
  let ?ev = "\<lambda>c. [Call (sum_list (take c ?nc)) (?nc ! c), Parallel omp]
                  @ map (\<lambda>b. Block (blkmap pn ! nat b))
                      [sum_list (take c ?nc) .. sum_list (take c ?nc) + ?nc ! c - 1]
                  @ [Return]"
  let ?s0 = "s\<lparr>jit := map_option (\<lambda>j. j\<lparr>ja_boffset := Some ?bo, ja_nblocks := Some ?nb\<rparr>) (jit s)\<rparr>"
  from Suc.hyps Suc.prems have kn: "k < n" and m: "m = n - Suc k" by simp_all
  have kl: "k < length ?nc" using kn len by simp
  have next_bo: "sum_list (take (Suc k) ?nc) = ?bo + ?nb"
    using kl by (rule prefix_sum_Suc)
  have bo0: "0 \<le> ?bo"
    using prefix_sum_mono [of k ?nc 0] kl kn nonneg by simp
  have top: "?bo + ?nb \<le> int (length (blkmap pn))"
    using prefix_sum_mono [OF len nonneg, of "Suc k"] kn fit next_bo by simp
  have range: "\<forall>b\<in>set [?bo..?bo + ?nb - 1]. 0 \<le> b \<and> b < int (length (blkmap pn))
                 \<and> 0 \<le> blkmap pn ! nat b
                 \<and> blkmap pn ! nat b < int (length (nelems pn))
                 \<and> blkmap pn ! nat b < int (length (offset pn))"
  proof
    fix b assume "b \<in> set [?bo..?bo + ?nb - 1]"
    then have b: "0 \<le> b" "b < int (length (blkmap pn))"
      using bo0 top by simp_all
    then have "blkmap pn ! nat b \<in> set (blkmap pn)"
      by (intro nth_mem) (simp add: nat_less_iff)
    with ids b show "0 \<le> b \<and> b < int (length (blkmap pn))
                 \<and> 0 \<le> blkmap pn ! nat b
                 \<and> blkmap pn ! nat b < int (length (nelems pn))
                 \<and> blkmap pn ! nat b < int (length (offset pn))"
      by blast
  qed
  from wrapper_result [OF range, of omp kern ?s0] obtain s1 where
    s1: "wrapper omp kern ?bo ?nb (blkmap pn) (offset pn) (nelems pn) ?s0 = Inr s1"
    "trace s1 = trace ?s0 @ [Call ?bo ?nb, Parallel omp]
               @ map (\<lambda>b. Block (blkmap pn ! nat b)) [?bo..?bo + ?nb - 1] @ [Return]"
    "plans s1 = plans ?s0"
    by blast
  have "Suc k \<le> n" using kn by simp
  from Suc.hyps(1) [OF m this, of s1] obtain s' where
    s': "color_loop omp kern pn [Suc k..<n] (sum_list (take (Suc k) ?nc)) s1 = Inr s'"
    "trace s' = trace s1 @ concat (map ?ev [Suc k..<n])"
    "plans s' = plans s1"
    by blast
  have split: "[k..<n] = k # [Suc k..<n]"
    using kn by (rule upt_conv_Cons)
  have "color_loop omp kern pn [k..<n] ?bo s = Inr s'"
    unfolding split using kl s1(1) s'(1) by (simp add: rd_def next_bo)
  moreover have "trace s' = trace s @ concat (map ?ev [k..<n])"
    unfolding split using s1(2) s'(2) by simp
  moreover have "plans s' = plans s"
    using s1(3) s'(3) by simp
  ultimately show ?case by blast
qed

text \<open>
  C1: on a part of positive size whose plan has \<open>ncolors\<close> colours, \<^verbatim>\<open>_compute\<close>
  calls the wrapper once per colour \<open>c = 0, \<dots>, ncolors - 1\<close>, in this order; the call
  for colour \<open>c\<close> runs the blocks found in \<^verbatim>\<open>blkmap\<close> at the positions from the sum of
  \<^verbatim>\<open>ncolblk[0..c-1]\<close> up to, not including, the sum of \<^verbatim>\<open>ncolblk[0..c]\<close>, which are
  \<^verbatim>\<open>ncolblk[c]\<close> positions; and the \<open>Return\<close> of the call for colour \<open>c\<close> comes
  before the \<open>Call\<close> for colour \<open>c + 1\<close>. The plan is one whose \<^verbatim>\<open>ncolblk\<close> has
  \<open>ncolors\<close> entries, none negative, that add up to no more than the length of
  \<^verbatim>\<open>blkmap\<close>, and whose block ids index \<^verbatim>\<open>nelems\<close> and \<^verbatim>\<open>offset\<close>.
\<close>

theorem compute_dispatches_colors_in_order:
  assumes sz: "0 < part_size p"
    and plan: "get_plan Plan pl p 1024 = Inr pn"
    and len: "length (ncolblk pn) = nat (ncolors pn)"
    and nonneg: "\<forall>c<nat (ncolors pn). 0 \<le> ncolblk pn ! c"
    and fit: "sum_list (ncolblk pn) \<le> int (length (blkmap pn))"
    and ids: "\<forall>bid\<in>set (blkmap pn). 0 \<le> bid \<and> bid < int (length (nelems pn))
                \<and> bid < int (length (offset pn))"
  shows "\<exists>s'. compute omp Plan kern pl p s = Inr s'
           \<and> trace s' = trace s
               @ concat (map (\<lambda>c. [Call (sum_list (take c (ncolblk pn))) (ncolblk pn ! c),
                                    Parallel omp]
                                   @ map (\<lambda>b. Block (blkmap pn ! nat b))
                                       [sum_list (take c (ncolblk pn))
                                        .. sum_list (take (Suc c) (ncolblk pn)) - 1]
                                   @ [Return]) [0..<nat (ncolors pn)])
           \<and> (\<forall>c<nat (ncolors pn).
                 int (length [sum_list (take c (ncolblk pn))
                              .. sum_list (take (Suc c) (ncolblk pn)) - 1]) = ncolblk pn ! c)"
proof -
  let ?n = "nat (ncolors pn)"
  let ?nc = "ncolblk pn"
  let ?s1 = "case jit s of
               None \<Rightarrow> s\<lparr>jit := Some \<lparr>ja_boffset = None, ja_nblocks = None, ja_blkmap = None,
                                      ja_offset = None, ja_nelems = None\<rparr>\<rparr>
             | Some j \<Rightarrow> s"
  let ?s2 = "?s1\<lparr>plans := plans ?s1 @ [(p, 1024)],
                 jit := map_option (\<lambda>j. j\<lparr>ja_blkmap := Some (blkmap pn),
                                           ja_offset := Some (offset pn),
                                           ja_nelems := Some (nelems pn)\<rparr>) (jit ?s1)\<rparr>"
  have pre: "sum_list (take (Suc c) ?nc) = sum_list (take c ?nc) + ?nc ! c" if "c < ?n" for c
    using that len by (intro prefix_sum_Suc) simp
  have ev: "map (\<lambda>c. [Call (sum_list (take c ?nc)) (?nc ! c), Parallel omp]
                     @ map (\<lambda>b. Block (blkmap pn ! nat b))
                         [sum_list (take c ?nc) .. sum_list (take (Suc c) ?nc) - 1]
                     @ [Return]) [0..<?n]
          = map (\<lambda>c. [Call (sum_list (take c ?nc)) (?nc ! c), Parallel omp]
                     @ map (\<lambda>b. Block (blkmap pn ! nat b))
                         [sum_list (take c ?nc) .. sum_list (take c ?nc) + ?nc ! c - 1]
                     @ [Return]) [0..<?n]"
    by (rule map_cong [OF refl]) (simp add: pre)
  have fit': "sum_list (take ?n ?nc) \<le> int (length (blkmap pn))"
    using fit len by simp
  from color_loop_result [of ?n pn 0 omp kern ?s2] len nonneg fit' ids obtain s' where
    s': "color_loop omp kern pn [0..<?n] 0 ?s2 = Inr s'"
    "trace s' = trace ?s2
               @ concat (map (\<lambda>c. [Call (sum_list (take c ?nc)) (?nc ! c), Parallel omp]
                     @ map (\<lambda>b. Block (blkmap pn ! nat b))
                         [sum_list (take c ?nc) .. sum_list (take c ?nc) + ?nc ! c - 1]
                     @ [Return]) [0..<?n])"
    by auto
  have tr: "trace ?s2 = trace s"
    by (simp split: option.splits)
  have run: "compute omp Plan kern pl p s = Inr s'"
    using sz plan s'(1) by (simp add: compute_def Let_def)
  have count: "\<forall>c<?n. int (length [sum_list (take c ?nc) .. sum_list (take (Suc c) ?nc) - 1])
                         = ?nc ! c"
    using nonneg by (simp add: pre)
  from run s'(2) count show ?thesis
    unfolding tr ev by blast
qed

theorem compute_dispatches_colors_in_order_witness:
  "\<exists>s'. compute 4
          (\<lambda>p n. Inr \<lparr>nblocks = 3, ncolors = 2, ncolblk = [2, 1], blkmap = [0, 2, 1],
                       nelems = [2, 2, 2], offset = [0, 2, 4]\<rparr>)
          (\<lambda>i d. Suc d) \<lparr>args = [], is_indirect = True\<rparr> \<lparr>part_offset = 0, part_size = 6\<rparr>
          \<lparr>jit = None, plans = [], trace = [], kernel_calls = [], data = 0\<rparr> = Inr s'
      \<and> trace s' = [Call 0 2, Parallel 4, Block 0, Block 2, Return,
                     Call 2 1, Parallel 4, Block 1, Return]"
proof -
  let ?pn = "\<lparr>nblocks = 3, ncolors = 2, ncolblk = [2, 1], blkmap = [0, 2, 1],
              nelems = [2, 2, 2], offset = [0, 2, 4]\<rparr>"
  let ?Plan = "\<lambda>(p::part) (n::int). Inr ?pn :: error + plan"
  let ?pl = "\<lparr>args = [], is_indirect = True\<rparr>"
  let ?p = "\<lparr>part_offset = 0, part_size = 6\<rparr>"
  have lt2: "(\<forall>c<2. P c) = (P 0 \<and> P (Suc 0))" for P :: "nat \<Rightarrow> bool"
    by (auto simp: less_2_cases_iff)
  have two: "[0..<2] = [0, Suc 0]" by (simp add: upt_rec)
  have u: "[0..1] = [0, 1 :: int]" by (simp add: upto_rec1)
  have h: "0 < part_size ?p" "get_plan ?Plan ?pl ?p 1024 = Inr ?pn"
    "length (ncolblk ?pn) = nat (ncolors ?pn)"
    "\<forall>c<nat (ncolors ?pn). 0 \<le> ncolblk ?pn ! c"
    "sum_list (ncolblk ?pn) \<le> int (length (blkmap ?pn))"
    "\<forall>bid\<in>set (blkmap ?pn). 0 \<le> bid \<and> bid < int (length (nelems ?pn))
                \<and> bid < int (length (offset ?pn))"
    by (simp_all add: get_plan_def lt2)
  show ?thesis
    using compute_dispatches_colors_in_order
      [OF h, of 4 "\<lambda>i d. Suc d"
         "\<lparr>jit = None, plans = [], trace = [], kernel_calls = [], data = 0::nat\<rparr>"]
    by (simp add: two u, blast)
qed

text \<open>
  C6: on a part of size 0, \<^verbatim>\<open>_compute\<close> asks for no plan, calls the wrapper not at
  all, invokes the kernel on no iteration and leaves the data of the arguments as it
  was.
\<close>

theorem compute_empty_part_no_effect:
  assumes "part_size p = 0"
  shows "\<exists>s'. compute omp Plan kern pl p s = Inr s'
           \<and> plans s' = plans s \<and> trace s' = trace s
           \<and> kernel_calls s' = kernel_calls s \<and> data s' = data s"
  using assms by (simp add: compute_def Let_def split: option.splits)

theorem compute_empty_part_no_effect_witness:
  "compute 4 (\<lambda>p n. Inl IndexError) (\<lambda>i d. Suc d) \<lparr>args = [], is_indirect = False\<rparr>
     \<lparr>part_offset = 7, part_size = 0\<rparr>
     \<lparr>jit = None, plans = [], trace = [], kernel_calls = [], data = 5\<rparr>
   = Inr \<lparr>jit = Some \<lparr>ja_boffset = None, ja_nblocks = None, ja_blkmap = None,
                       ja_offset = None, ja_nelems = None\<rparr>,
          plans = [], trace = [], kernel_calls = [], data = 5\<rparr>"
proof -
  have h: "part_size \<lparr>part_offset = 7, part_size = 0\<rparr> = 0" by simp
  show ?thesis
    using compute_empty_part_no_effect
      [OF h, of 4 "\<lambda>p n. Inl IndexError" "\<lambda>i d. Suc d" "\<lparr>args = [], is_indirect = False\<rparr>"
         "\<lparr>jit = None, plans = [], trace = [], kernel_calls = [], data = 5::nat\<rparr>"]
    by (simp add: compute_def)
qed




end
